theory Spec2Isabelle
  imports Complex_Main "HOL-Library.AList" "HOL-Library.List_Lexorder"
begin

section \<open>Python values\<close>

text \<open>
  A Python \<open>str\<close> is a sequence of Unicode code points, so a text is a list of
  natural numbers; \<open>u\<close> writes an ASCII literal. Python floats are modelled as
  rationals: the arithmetic of the scores and ratios is exact.
\<close>

type_synonym ustr = "nat list"

definition u :: "string \<Rightarrow> ustr" where
  "u s = map of_char s"

datatype py_error = ZeroDivisionError | IndexError | ValueError | FileNotFoundError

definition truediv :: "rat \<Rightarrow> rat \<Rightarrow> py_error + rat" where
  "truediv a b = (if b = 0 then Inl ZeroDivisionError else Inr (a / b))"

text \<open>\<open>max(iterable, key=...)\<close>: the first item whose key is maximal; an empty
  iterable raises.\<close>

fun max_from :: "('a \<Rightarrow> rat) \<Rightarrow> 'a \<Rightarrow> 'a list \<Rightarrow> 'a" where
  "max_from key best [] = best"
| "max_from key best (x # xs) = max_from key (if key best < key x then x else best) xs"

fun py_max :: "('a \<Rightarrow> rat) \<Rightarrow> 'a list \<Rightarrow> py_error + 'a" where
  "py_max key [] = Inl ValueError"
| "py_max key (x # xs) = Inr (max_from key x xs)"


section \<open>Python strings\<close>

text \<open>
  The characters that \<open>str.split()\<close>, \<open>str.strip()\<close> and the pattern \<open>\s\<close> treat
  as white space.
\<close>

definition py_isspace :: "nat \<Rightarrow> bool" where
  "py_isspace c \<longleftrightarrow> (9 \<le> c \<and> c \<le> 13) \<or> (28 \<le> c \<and> c \<le> 32) \<or> c = 133 \<or> c = 160
     \<or> c = 5760 \<or> (8192 \<le> c \<and> c \<le> 8202) \<or> c = 8232 \<or> c = 8233 \<or> c = 8239
     \<or> c = 8287 \<or> c = 12288"

definition ascii_digit :: "nat \<Rightarrow> bool" where
  "ascii_digit c \<longleftrightarrow> 48 \<le> c \<and> c \<le> 57"

definition ascii_upper :: "nat \<Rightarrow> bool" where
  "ascii_upper c \<longleftrightarrow> 65 \<le> c \<and> c \<le> 90"

definition ascii_lower :: "nat \<Rightarrow> bool" where
  "ascii_lower c \<longleftrightarrow> 97 \<le> c \<and> c \<le> 122"

definition ascii_letter :: "nat \<Rightarrow> bool" where
  "ascii_letter c \<longleftrightarrow> ascii_upper c \<or> ascii_lower c"

text \<open>
  The tables of the Unicode character database beyond ASCII are not part of the
  repository; they are a parameter. Every function below fixes what the run time does
  on ASCII and asks the parameter for the rest, so a statement proved for every
  \<open>unicode_db\<close> holds for the real tables.
\<close>

record unicode_db =
  db_decimal :: "nat \<Rightarrow> bool"
  db_alnum :: "nat \<Rightarrow> bool"
  db_casevars :: "nat \<Rightarrow> nat list"
  db_lower :: "ustr \<Rightarrow> ustr"
  db_islower :: "nat \<Rightarrow> bool"
  db_isdigit :: "nat \<Rightarrow> bool"
  db_nfkc :: "ustr \<Rightarrow> ustr"
  db_control :: "nat \<Rightarrow> bool"

definition ascii_db :: unicode_db where
  "ascii_db = \<lparr>db_decimal = (\<lambda>c. False), db_alnum = (\<lambda>c. False), db_casevars = (\<lambda>c. []),
     db_lower = (\<lambda>s. s), db_islower = (\<lambda>c. False), db_isdigit = (\<lambda>c. False),
     db_nfkc = (\<lambda>s. s), db_control = (\<lambda>c. False)\<rparr>"

definition py_lower :: "unicode_db \<Rightarrow> ustr \<Rightarrow> ustr" where
  "py_lower U s =
     (if list_all (\<lambda>c. c < 128) s then map (\<lambda>c. if ascii_upper c then c + 32 else c) s
      else db_lower U s)"

text \<open>\<open>s.split()\<close>: the maximal runs of characters that are not white space.\<close>

fun split_acc :: "ustr \<Rightarrow> ustr \<Rightarrow> ustr list" where
  "split_acc w [] = (if w = [] then [] else [w])"
| "split_acc w (c # cs) =
     (if py_isspace c then (if w = [] then split_acc [] cs else w # split_acc [] cs)
      else split_acc (w @ [c]) cs)"

definition py_split :: "ustr \<Rightarrow> ustr list" where
  "py_split s = split_acc [] s"

definition py_strip :: "ustr \<Rightarrow> ustr" where
  "py_strip s = rev (dropWhile py_isspace (rev (dropWhile py_isspace s)))"

text \<open>\<open>s.split(sep)\<close> and \<open>s.replace(old, new)\<close> for a non-empty \<open>sep\<close> and
  \<open>old\<close>, as every call of the source has them; \<open>sep.join(xs)\<close>; \<open>sub in s\<close>.\<close>

fun starts_with :: "ustr \<Rightarrow> ustr \<Rightarrow> bool" where
  "starts_with [] s = True"
| "starts_with (p # ps) [] = False"
| "starts_with (p # ps) (c # cs) = (p = c \<and> starts_with ps cs)"

function split_sep_acc :: "ustr \<Rightarrow> ustr \<Rightarrow> ustr \<Rightarrow> ustr list" where
  "split_sep_acc sep cur [] = [cur]"
| "split_sep_acc sep cur (c # cs) =
     (if sep \<noteq> [] \<and> starts_with sep (c # cs)
      then cur # split_sep_acc sep [] (drop (length sep) (c # cs))
      else split_sep_acc sep (cur @ [c]) cs)"
  by pat_completeness auto
termination
  by (relation "measure (\<lambda>(sep, cur, s). length s)") auto

definition split_sep :: "ustr \<Rightarrow> ustr \<Rightarrow> ustr list" where
  "split_sep sep s = split_sep_acc sep [] s"

function py_replace :: "ustr \<Rightarrow> ustr \<Rightarrow> ustr \<Rightarrow> ustr" where
  "py_replace old new [] = []"
| "py_replace old new (c # cs) =
     (if old \<noteq> [] \<and> starts_with old (c # cs)
      then new @ py_replace old new (drop (length old) (c # cs))
      else c # py_replace old new cs)"
  by pat_completeness auto
termination
  by (relation "measure (\<lambda>(old, new, s). length s)") auto

fun py_join :: "ustr \<Rightarrow> ustr list \<Rightarrow> ustr" where
  "py_join sep [] = []"
| "py_join sep [x] = x"
| "py_join sep (x # y # ys) = x @ sep @ py_join sep (y # ys)"

fun py_in :: "ustr \<Rightarrow> ustr \<Rightarrow> bool" where
  "py_in sub [] = (sub = [])"
| "py_in sub (c # cs) = (starts_with sub (c # cs) \<or> py_in sub cs)"


section \<open>Regular expressions\<close>

text \<open>
  The patterns of the source use character classes with a repetition, groups with
  alternatives, and the assertions \<open>\b\<close>, \<open>^\<close>, \<open>$\<close> and a one-character look-ahead.
  A pattern is a list of nodes; \<open>Cls P mn mx greedy\<close> is a class repeated between
  \<open>mn\<close> and \<open>mx\<close> times, \<open>One P\<close> a class matched once, \<open>Grp g alts\<close> a group
  (captured under number \<open>g\<close> if given) and \<open>Close\<close> marks, while matching, where an
  open group ends.
\<close>

definition re_digit :: "unicode_db \<Rightarrow> nat \<Rightarrow> bool" where
  "re_digit U c = (if c < 128 then ascii_digit c else db_decimal U c)"

definition re_word :: "unicode_db \<Rightarrow> nat \<Rightarrow> bool" where
  "re_word U c = (if c < 128 then ascii_letter c \<or> ascii_digit c \<or> c = 95 else db_alnum U c)"

definition dot :: "nat \<Rightarrow> bool" where
  "dot c \<longleftrightarrow> c \<noteq> 10"

text \<open>Under \<open>re.IGNORECASE\<close> a class with cased members accepts a character if it
  accepts one of its case variants. An ASCII letter has the other ASCII case as a
  variant; every further variant of an ASCII character lies outside ASCII and comes
  from the parameter.\<close>

definition case_variants :: "unicode_db \<Rightarrow> nat \<Rightarrow> nat list" where
  "case_variants U c =
     (if ascii_upper c then [c + 32] else if ascii_lower c then [c - 32] else [])
     @ (if c < 128 then filter (\<lambda>d. 128 \<le> d) (db_casevars U c) else db_casevars U c)"

definition ci :: "unicode_db \<Rightarrow> (nat \<Rightarrow> bool) \<Rightarrow> nat \<Rightarrow> bool" where
  "ci U P c \<longleftrightarrow> P c \<or> list_ex P (case_variants U c)"

datatype node =
    One "nat \<Rightarrow> bool"
  | Cls "nat \<Rightarrow> bool" nat "nat option" bool
  | Grp "nat option" "node list list"
  | Close nat nat
  | WordB
  | Bos
  | Eos
  | Ahead "nat \<Rightarrow> bool"

type_synonym caps = "nat \<rightharpoonup> nat \<times> nat"

definition closing :: "nat option \<Rightarrow> nat \<Rightarrow> node list" where
  "closing g i = (case g of None \<Rightarrow> [] | Some n \<Rightarrow> [Close n i])"

definition word_at :: "unicode_db \<Rightarrow> ustr \<Rightarrow> bool" where
  "word_at U cs = (case cs of [] \<Rightarrow> False | c # _ \<Rightarrow> re_word U c)"

definition below :: "nat \<Rightarrow> nat option \<Rightarrow> bool" where
  "below n mx = (case mx of None \<Rightarrow> True | Some b \<Rightarrow> n < b)"

text \<open>
  The backtracking matcher. \<open>m U pre suf i lo cs ns\<close> matches the nodes \<open>ns\<close> at
  position \<open>i\<close>, where \<open>pre\<close> holds the characters before the position (nearest
  first) and \<open>suf\<close> those from it on; it returns the end of the first match in the
  order of preference (a greedy repetition tries the longest run first, a lazy one the
  shortest; alternatives are tried from the left) with the groups captured. A match
  must end at \<open>lo\<close> or later.
\<close>

function m :: "unicode_db \<Rightarrow> ustr \<Rightarrow> ustr \<Rightarrow> nat \<Rightarrow> nat \<Rightarrow> caps \<Rightarrow> node list \<Rightarrow> (nat \<times> caps) option"
  and rep :: "unicode_db \<Rightarrow> (nat \<Rightarrow> bool) \<Rightarrow> nat \<Rightarrow> nat option \<Rightarrow> bool \<Rightarrow> nat
               \<Rightarrow> ustr \<Rightarrow> ustr \<Rightarrow> nat \<Rightarrow> nat \<Rightarrow> caps \<Rightarrow> node list \<Rightarrow> (nat \<times> caps) option"
where
  "m U pre suf i lo cs [] = (if lo \<le> i then Some (i, cs) else None)"
| "m U pre [] i lo cs (One P # ns) = None"
| "m U pre (c # suf) i lo cs (One P # ns) =
     (if P c then m U (c # pre) suf (Suc i) lo cs ns else None)"
| "m U pre suf i lo cs (Cls P mn mx greedy # ns) = rep U P mn mx greedy 0 pre suf i lo cs ns"
| "m U pre suf i lo cs (Grp g [] # ns) = None"
| "m U pre suf i lo cs (Grp g (alt # alts) # ns) =
     (case m U pre suf i lo cs (alt @ closing g i @ ns) of
        Some r \<Rightarrow> Some r
      | None \<Rightarrow> m U pre suf i lo cs (Grp g alts # ns))"
| "m U pre suf i lo cs (Close g b # ns) = m U pre suf i lo (cs(g \<mapsto> (b, i))) ns"
| "m U pre suf i lo cs (WordB # ns) =
     (if word_at U pre \<noteq> word_at U suf then m U pre suf i lo cs ns else None)"
| "m U pre suf i lo cs (Bos # ns) = (if pre = [] then m U pre suf i lo cs ns else None)"
| "m U pre suf i lo cs (Eos # ns) =
     (if suf = [] \<or> suf = [10] then m U pre suf i lo cs ns else None)"
| "m U pre [] i lo cs (Ahead P # ns) = None"
| "m U pre (c # suf) i lo cs (Ahead P # ns) =
     (if P c then m U pre (c # suf) i lo cs ns else None)"
| "rep U P mn mx greedy n pre [] i lo cs ns =
     (if mn \<le> n then m U pre [] i lo cs ns else None)"
| "rep U P mn mx greedy n pre (c # suf) i lo cs ns =
     (if P c \<and> below n mx then
        (if greedy then
           (case rep U P mn mx greedy (Suc n) (c # pre) suf (Suc i) lo cs ns of
              Some r \<Rightarrow> Some r
            | None \<Rightarrow> if mn \<le> n then m U pre (c # suf) i lo cs ns else None)
         else
           (case (if mn \<le> n then m U pre (c # suf) i lo cs ns else None) of
              Some r \<Rightarrow> Some r
            | None \<Rightarrow> rep U P mn mx greedy (Suc n) (c # pre) suf (Suc i) lo cs ns))
      else if mn \<le> n then m U pre (c # suf) i lo cs ns else None)"
  by pat_completeness auto
termination
  by (relation "inv_image (less_than <*lex*> less_than)
        (\<lambda>x. case x of
           Inl (U, pre, suf, i, lo, cs, ns) \<Rightarrow> (2 * size_list size ns, length suf)
         | Inr (U, P, mn, mx, greedy, n, pre, suf, i, lo, cs, ns) \<Rightarrow>
             (2 * size_list size ns + 1, length suf))")
     (auto simp: closing_def split: option.splits)

text \<open>\<open>re.match\<close> tries position 0 only; \<open>re.search\<close> tries every position from the
  left. The flag of \<open>search\<close> asks for a match that is not empty at the first position
  tried, as the run time does after an empty match.\<close>

definition re_match :: "unicode_db \<Rightarrow> node list \<Rightarrow> ustr \<Rightarrow> (nat \<times> caps) option" where
  "re_match U re s = m U [] s 0 0 Map.empty re"

fun search_loop :: "unicode_db \<Rightarrow> node list \<Rightarrow> ustr \<Rightarrow> ustr \<Rightarrow> nat \<Rightarrow> nat
    \<Rightarrow> (nat \<times> nat \<times> caps) option" where
  "search_loop U re pre [] b lo =
     (case m U pre [] b lo Map.empty re of
        Some (e, cs) \<Rightarrow> Some (b, e, cs)
      | None \<Rightarrow> None)"
| "search_loop U re pre (c # suf) b lo =
     (case m U pre (c # suf) b lo Map.empty re of
        Some (e, cs) \<Rightarrow> Some (b, e, cs)
      | None \<Rightarrow> search_loop U re (c # pre) suf (Suc b) 0)"

definition search :: "unicode_db \<Rightarrow> node list \<Rightarrow> ustr \<Rightarrow> nat \<Rightarrow> bool \<Rightarrow> (nat \<times> nat \<times> caps) option" where
  "search U re s p must_advance =
     (if length s < p then None
      else search_loop U re (rev (take p s)) (drop p s) p (if must_advance then Suc p else 0))"

definition re_search :: "unicode_db \<Rightarrow> node list \<Rightarrow> ustr \<Rightarrow> (nat \<times> nat \<times> caps) option" where
  "re_search U re s = search U re s 0 False"

text \<open>All matches from the left, none overlapping: the loop shared by \<open>re.sub\<close>,
  \<open>re.split\<close> and \<open>re.findall\<close>.\<close>

function scan :: "unicode_db \<Rightarrow> node list \<Rightarrow> ustr \<Rightarrow> nat \<Rightarrow> bool \<Rightarrow> (nat \<times> nat \<times> caps) list" where
  "scan U re s p must_advance =
     (case search U re s p must_advance of
        None \<Rightarrow> []
      | Some (b, e, cs) \<Rightarrow> (b, e, cs) # scan U re s e (e = b))"
  by pat_completeness auto
termination
proof (relation "measure (\<lambda>(U, re, s, p, ma). 2 * (Suc (length s) - p) + (if ma then 0 else 1))",
       goal_cases)
  case 1
  show ?case by simp
next
  case (2 U re s p ma x b y e cs)
  have mono: "m U pre suf i lo cs ns = Some (j, cs') \<Longrightarrow> i \<le> j \<and> lo \<le> j"
    and "rep U P mn mx greedy n pre suf i lo cs ns = Some (j, cs') \<Longrightarrow> i \<le> j \<and> lo \<le> j"
    for U pre suf i lo cs ns j cs' P mn mx greedy n
  proof (induction U pre suf i lo cs ns and U P mn mx greedy n pre suf i lo cs ns
         arbitrary: j cs' and j cs' rule: m_rep.induct)
    case (14 U P mn mx greedy n pre c suf i lo cs ns)
    show ?case
    proof (cases "P c \<and> below n mx")
      case True
      then show ?thesis
        using "14.prems" "14.IH"(1) [of j cs'] "14.IH"(2) [of j cs'] "14.IH"(3) [of j cs']
              "14.IH"(4) [of j cs']
        by (auto split: if_splits option.splits)
    next
      case False
      then show ?thesis
        using "14.prems" "14.IH"(5) [of j cs'] by (auto split: if_splits)
    qed
  qed (auto split: if_splits option.splits list.splits)
  have loop: "search_loop U re pre suf b0 lo = Some (b, e, cs) \<Longrightarrow>
      b0 \<le> b \<and> b \<le> e \<and> (lo \<le> Suc b0 \<longrightarrow> lo \<le> e)"
    for pre suf b0 lo
  proof (induction suf arbitrary: pre b0 lo)
    case Nil
    then show ?case using mono by (auto split: option.splits)
  next
    case (Cons c suf)
    show ?case
    proof (cases "m U pre (c # suf) b0 lo Map.empty re")
      case None
      with Cons.prems have "search_loop U re (c # pre) suf (Suc b0) 0 = Some (b, e, cs)" by simp
      from Cons.IH [OF this] show ?thesis by auto
    next
      case (Some r)
      with Cons.prems mono show ?thesis by (cases r) auto
    qed
  qed
  from 2 have "search U re s p ma = Some (b, e, cs)" by simp
  then have le: "p \<le> length s"
    and sl: "search_loop U re (rev (take p s)) (drop p s) p (if ma then Suc p else 0) = Some (b, e, cs)"
    by (auto simp: search_def split: if_splits)
  from loop [OF sl] le show ?case by (auto split: if_splits)
qed

text \<open>\<open>re.sub\<close> with a replacement template (\<open>Ref g\<close> stands for \<open>\g\<close>) or with a
  function of the match, \<open>re.split\<close> for a pattern without groups, and
  \<open>len(re.findall(...))\<close>.\<close>

datatype tpart = Lit ustr | Ref nat

definition group_text :: "ustr \<Rightarrow> caps \<Rightarrow> nat \<Rightarrow> ustr" where
  "group_text s cs g = (case cs g of None \<Rightarrow> [] | Some (b, e) \<Rightarrow> take (e - b) (drop b s))"

fun expand :: "tpart list \<Rightarrow> ustr \<Rightarrow> caps \<Rightarrow> ustr" where
  "expand [] s cs = []"
| "expand (Lit l # ps) s cs = l @ expand ps s cs"
| "expand (Ref g # ps) s cs = group_text s cs g @ expand ps s cs"

fun build :: "ustr \<Rightarrow> (nat \<times> nat \<times> caps \<Rightarrow> ustr) \<Rightarrow> nat \<Rightarrow> (nat \<times> nat \<times> caps) list \<Rightarrow> ustr" where
  "build s f i [] = drop i s"
| "build s f i ((b, e, cs) # ms) = take (b - i) (drop i s) @ f (b, e, cs) @ build s f e ms"

definition re_subf :: "unicode_db \<Rightarrow> node list \<Rightarrow> (nat \<times> nat \<times> caps \<Rightarrow> ustr) \<Rightarrow> ustr \<Rightarrow> ustr" where
  "re_subf U re f s = build s f 0 (scan U re s 0 False)"

definition re_sub :: "unicode_db \<Rightarrow> node list \<Rightarrow> tpart list \<Rightarrow> ustr \<Rightarrow> ustr" where
  "re_sub U re tmpl s = re_subf U re (\<lambda>(b, e, cs). expand tmpl s cs) s"

fun pieces :: "ustr \<Rightarrow> nat \<Rightarrow> (nat \<times> nat \<times> caps) list \<Rightarrow> ustr list" where
  "pieces s i [] = [drop i s]"
| "pieces s i ((b, e, cs) # ms) = take (b - i) (drop i s) # pieces s e ms"

definition re_split :: "unicode_db \<Rightarrow> node list \<Rightarrow> ustr \<Rightarrow> ustr list" where
  "re_split U re s = pieces s 0 (scan U re s 0 False)"


text \<open>Writing patterns: a literal character, a literal string, and their
  case-insensitive forms (an ASCII character that is not a letter has no case and stays
  a plain literal).\<close>

definition chr :: "nat \<Rightarrow> node" where
  "chr c = One (\<lambda>x. x = c)"

definition lits :: "string \<Rightarrow> node list" where
  "lits s = map (\<lambda>c. chr (of_char c)) s"

definition ichr :: "unicode_db \<Rightarrow> nat \<Rightarrow> node" where
  "ichr U c = (if ascii_letter c \<or> 128 \<le> c then One (ci U (\<lambda>x. x = c)) else chr c)"

definition ilits :: "unicode_db \<Rightarrow> string \<Rightarrow> node list" where
  "ilits U s = map (\<lambda>c. ichr U (of_char c)) s"




section \<open>Comparison of the extractions (text\_comparison.py)\<close>

text \<open>The pattern of \<open>extract_group_key\<close>:
  \<^verbatim>\<open>(.+?)_(tesseract_extraction|pymupdf_extraction|from_csv)(?:_cleaned)?\.txt\<close>\<close>

definition key_re :: "node list" where
  "key_re =
     [Grp (Some 1) [[Cls dot 1 None False]]] @ lits ''_''
     @ [Grp (Some 2) [lits ''tesseract_extraction'', lits ''pymupdf_extraction'', lits ''from_csv'']]
     @ [Grp None [lits ''_cleaned'', []]] @ lits ''.txt''"

definition extract_group_key :: "unicode_db \<Rightarrow> ustr \<Rightarrow> ustr option" where
  "extract_group_key U filename =
     (case re_match U key_re filename of
        Some (e, cs) \<Rightarrow> Some (group_text filename cs 1)
      | None \<Rightarrow> None)"




text \<open>The pattern of \<open>ocr_error_rate\<close> is \<^verbatim>\<open>[^-]\<close>: one character other than the
  hyphen.\<close>

definition ocr_error_rate :: "unicode_db \<Rightarrow> ustr \<Rightarrow> py_error + rat" where
  "ocr_error_rate U text =
     truediv (of_nat (length (filter (\<lambda>word. re_search U [One (\<lambda>c. c \<noteq> 45)] word \<noteq> None)
                                (py_split text))))
             (of_nat (max (length (py_split text)) 1))"

definition average_word_length :: "ustr \<Rightarrow> py_error + rat" where
  "average_word_length text =
     (let words = py_split text
      in truediv (of_nat (sum_list (map length words))) (of_nat (max (length words) 1)))"

definition punctuation_frequency :: "ustr \<Rightarrow> py_error + rat" where
  "punctuation_frequency text =
     truediv (of_nat (length (filter (\<lambda>c. c \<in> set (u ''.,;:!?'')) text)))
             (of_nat (max (length text) 1))"







text \<open>
  \<open>compare_folder\<close>. A file of the folder is its name and its text; \<open>grouped\<close> is a
  dictionary of dictionaries, kept as lists of items in insertion order. The row
  written for a group holds the lists before they are formatted.
\<close>

record text_file =
  f_name :: ustr
  f_text :: ustr

type_synonym groups = "(ustr \<times> (ustr \<times> text_file) list) list"



definition dict_get :: "('k \<times> 'v) list \<Rightarrow> 'k \<Rightarrow> 'v \<Rightarrow> 'v" where
  "dict_get d k dflt = (case map_of d k of None \<Rightarrow> dflt | Some v \<Rightarrow> v)"

definition group_step :: "unicode_db \<Rightarrow> groups \<Rightarrow> text_file \<Rightarrow> groups" where
  "group_step U grouped f =
     (case extract_group_key U (f_name f) of
        None \<Rightarrow> grouped
      | Some group_key \<Rightarrow>
          if group_key = [] then grouped
          else
            (let methods = dict_get grouped group_key [];
                 methods =
                   (if py_in (u ''_tesseract_extraction'') (f_name f)
                    then AList.update (u ''tesseract_extraction'') f methods
                    else if py_in (u ''_pymupdf_extraction'') (f_name f)
                    then AList.update (u ''pymupdf_extraction'') f methods
                    else if py_in (u ''_from_csv'') (f_name f)
                    then AList.update (u ''from_csv'') f methods
                    else methods)
             in AList.update group_key methods grouped))"


record metric_lists =
  word_counts :: "nat option list"
  sentence_counts :: "nat option list"
  char_counts :: "nat option list"
  ocr_error_rates :: "rat option list"
  avg_word_lengths :: "rat option list"
  punctuation_freqs :: "rat option list"


record row =
  r_group :: ustr
  r_lists :: metric_lists
  r_recommendation :: ustr














section \<open>Selection and copy (text\_file\_recommendation.py)\<close>

text \<open>
  One row of the comparison summary, and the choice the loop makes for it:
  \<open>exists\<close> says which file names are present in the input directory; the
  result is the name of the file copied, or \<open>None\<close> when the row is skipped.
\<close>

record summary_row =
  row_group :: ustr
  row_recommendation :: ustr

definition csv_filename :: "ustr \<Rightarrow> ustr" where
  "csv_filename base_name = base_name @ u ''_from_csv.txt''"

definition recommended_filename :: "ustr \<Rightarrow> ustr \<Rightarrow> ustr" where
  "recommended_filename base_name recommended_method =
     base_name @ u ''_'' @ recommended_method @ u ''_extraction.txt''"

definition select_file :: "(ustr \<Rightarrow> bool) \<Rightarrow> summary_row \<Rightarrow> ustr option" where
  "select_file exists row =
     (let base_name = row_group row;
          recommended_method = row_recommendation row
      in if exists (csv_filename base_name) then Some (csv_filename base_name)
         else if exists (recommended_filename base_name recommended_method)
              then Some (recommended_filename base_name recommended_method)
              else None)"

text \<open>The loop over the rows; the state is the list of files copied so far.\<close>

fun selection_loop :: "(ustr \<Rightarrow> bool) \<Rightarrow> summary_row list \<Rightarrow> ustr list \<Rightarrow> ustr list" where
  "selection_loop exists [] copied = copied"
| "selection_loop exists (row # rows) copied =
     (case select_file exists row of
        None \<Rightarrow> selection_loop exists rows copied
      | Some selected_file \<Rightarrow> selection_loop exists rows (copied @ [selected_file]))"


section \<open>Arbitration by the simple quality score (7\_archive/c1\_text\_comparison.py)\<close>

text \<open>The dictionary that \<open>_compute_metrics\<close> returns, one field per key.\<close>

record metrics =
  mt_word_count :: nat
  mt_sentence_count :: nat
  mt_char_count :: nat
  mt_avg_word_length :: rat
  mt_punctuation_frequency :: rat
  mt_lexical_diversity :: rat
  mt_ocr_error_rate :: rat

text \<open>
  \<open>_ocr_error_heuristic\<close>. Its pattern is \<^verbatim>\<open>[A-Za-z].*\d|\d.*[A-Za-z]\<close>; 65533 is
  the replacement character U+FFFD.
\<close>

definition tokenise :: "ustr \<Rightarrow> ustr list" where
  "tokenise text = py_split text"

definition mixed_re :: "unicode_db \<Rightarrow> node list" where
  "mixed_re U =
     [Grp None [[One ascii_letter, Cls dot 0 None True, One (re_digit U)],
                [One (re_digit U), Cls dot 0 None True, One ascii_letter]]]"

fun suspicious_loop :: "unicode_db \<Rightarrow> ustr list \<Rightarrow> nat \<Rightarrow> nat" where
  "suspicious_loop U [] suspicious = suspicious"
| "suspicious_loop U (w # ws) suspicious =
     (if 65533 \<in> set w then suspicious_loop U ws (suspicious + 1)
      else if re_search U (mixed_re U) w \<noteq> None then suspicious_loop U ws (suspicious + 1)
      else if list_ex (\<lambda>ch. 127 < ch) w then suspicious_loop U ws (suspicious + 1)
      else suspicious_loop U ws suspicious)"

definition ocr_error_heuristic :: "unicode_db \<Rightarrow> ustr list \<Rightarrow> py_error + rat" where
  "ocr_error_heuristic U words =
     truediv (of_nat (suspicious_loop U words 0)) (of_nat (max (length words) 1))"

text \<open>
  \<open>_compute_metrics\<close>. \<open>_SENTENCE_BOUNDARY\<close> is \<^verbatim>\<open>[.!?\<dots>]+\s|\n+\<close> (8230 is the
  ellipsis); \<open>string.punctuation\<close> holds the ASCII characters that are neither
  letters, digits, controls nor the space.
\<close>

definition sentence_boundary :: "node list" where
  "sentence_boundary =
     [Grp None [[Cls (\<lambda>c. c \<in> {46, 33, 63, 8230}) 1 None True, One py_isspace],
                [Cls (\<lambda>c. c = 10) 1 None True]]]"

definition in_punctuation :: "nat \<Rightarrow> bool" where
  "in_punctuation c \<longleftrightarrow> (33 \<le> c \<and> c \<le> 47) \<or> (58 \<le> c \<and> c \<le> 64) \<or> (91 \<le> c \<and> c \<le> 96)
     \<or> (123 \<le> c \<and> c \<le> 126)"

definition compute_metrics :: "unicode_db \<Rightarrow> ustr \<Rightarrow> py_error + metrics" where
  "compute_metrics U text =
     (let words = tokenise text;
          n_words = length words;
          sentences = re_split U sentence_boundary text;
          sentences = filter (\<lambda>s. py_strip s \<noteq> []) sentences;
          n_sentences = length sentences;
          n_chars = length text;
          punctuation_count = length (filter in_punctuation text)
      in case (if n_words \<noteq> 0
               then truediv (of_nat (sum_list (map length words))) (of_nat n_words)
               else Inr 0) of
           Inl e \<Rightarrow> Inl e
         | Inr awl \<Rightarrow>
        (case truediv (of_nat punctuation_count) (of_nat (max n_chars 1)) of
           Inl e \<Rightarrow> Inl e
         | Inr pf \<Rightarrow>
        (case truediv (of_nat (length (remdups words))) (of_nat (max n_words 1)) of
           Inl e \<Rightarrow> Inl e
         | Inr ld \<Rightarrow>
        (case ocr_error_heuristic U words of
           Inl e \<Rightarrow> Inl e
         | Inr oer \<Rightarrow>
             Inr \<lparr>mt_word_count = n_words, mt_sentence_count = n_sentences,
                  mt_char_count = n_chars, mt_avg_word_length = awl,
                  mt_punctuation_frequency = pf, mt_lexical_diversity = ld,
                  mt_ocr_error_rate = oer\<rparr>))))"


text \<open>
  The suspicious words as the specification describes them: a word that contains the
  replacement character, or both a letter and a digit, or a character outside ASCII;
  and the fraction of such words among the words of a text.
\<close>

definition suspicious_word :: "ustr \<Rightarrow> bool" where
  "suspicious_word w \<longleftrightarrow>
     65533 \<in> set w \<or> (list_ex ascii_letter w \<and> list_ex ascii_digit w) \<or> list_ex (\<lambda>c. 127 < c) w"

definition suspicious_fraction :: "ustr \<Rightarrow> rat" where
  "suspicious_fraction text =
     of_nat (length (filter suspicious_word (py_split text)))
       / of_nat (max (length (py_split text)) 1)"

definition quality_score :: "metrics \<Rightarrow> rat" where
  "quality_score metrics = of_nat (mt_word_count metrics) * (1 - mt_ocr_error_rate metrics)"

text \<open>
  The election inside \<open>compare_folder\<close>: \<open>metrics_by_method\<close> is a dictionary, here
  the list of its items in insertion order, and the winner is the method of the first
  item with the greatest score.
\<close>

definition best_method :: "(ustr \<times> metrics) list \<Rightarrow> py_error + ustr" where
  "best_method metrics_by_method =
     (case py_max snd (map (\<lambda>(m, metrics). (m, quality_score metrics)) metrics_by_method) of
        Inl e \<Rightarrow> Inl e
      | Inr (best, _) \<Rightarrow> Inr best)"


section \<open>The repair pipeline (7\_archive/b\_text\_cleaning.py)\<close>

text \<open>
  The run-time predicates of \<open>TextCleaner\<close>: \<open>str.isdigit\<close>, \<open>str.islower\<close> on one
  character, the categories that start with \<open>C\<close>, and NFKC normalisation, which
  leaves an ASCII text as it is.
\<close>

definition py_isdigit :: "unicode_db \<Rightarrow> ustr \<Rightarrow> bool" where
  "py_isdigit U s \<longleftrightarrow> s \<noteq> [] \<and> list_all (\<lambda>c. if c < 128 then ascii_digit c else db_isdigit U c) s"

definition py_islower :: "unicode_db \<Rightarrow> nat \<Rightarrow> bool" where
  "py_islower U c = (if c < 128 then ascii_lower c else db_islower U c)"

definition category_C :: "unicode_db \<Rightarrow> nat \<Rightarrow> bool" where
  "category_C U c = (if c < 128 then c < 32 \<or> c = 127 else db_control U c)"

definition py_nfkc :: "unicode_db \<Rightarrow> ustr \<Rightarrow> ustr" where
  "py_nfkc U s = (if list_all (\<lambda>c. c < 128) s then s else db_nfkc U s)"

definition one_of :: "string \<Rightarrow> nat \<Rightarrow> bool" where
  "one_of s c \<longleftrightarrow> c \<in> set (u s)"

text \<open>\<open>self.noise_patterns\<close>, each compiled with \<open>re.IGNORECASE\<close>.\<close>

definition noise_patterns :: "unicode_db \<Rightarrow> node list list" where
  "noise_patterns U =
     [[One (\<lambda>c. c \<in> {8226, 183, 8729, 9702, 9642, 9643, 9632, 9633, 9650, 9660, 9658, 9668})],
      ilits U ''www'' @ [chr 46,
        Cls (ci U (\<lambda>c. ascii_letter c \<or> ascii_digit c \<or> c = 46 \<or> c = 45)) 1 None True,
        chr 46, Cls (ci U ascii_letter) 2 None True],
      ilits U ''http'' @ [Cls (ci U (\<lambda>c. c = 115)) 0 (Some 1) True] @ lits ''://''
        @ [Cls (ci U (\<lambda>c. ascii_letter c \<or> ascii_digit c \<or> c = 46 \<or> c = 45)) 1 None True,
           chr 46, Cls (ci U ascii_letter) 2 None True,
           Cls (\<lambda>c. c = 47 \<or> re_word U c \<or> c = 46 \<or> c = 45) 0 None True],
      [chr 64, Cls py_isspace 0 None True, Cls (\<lambda>c. c = 92) 0 (Some 1) True,
       Cls (ci U ascii_letter) 1 None True, Cls py_isspace 0 None True,
       One (ci U (\<lambda>c. c = 76 \<or> c = 108))] @ ilits U ''eave'',
      ilits U ''HM Government'',
      ilits U ''EUReferendum.gov.uk'',
      ilits U ''voteleavetakecontrol.org'',
      [Cls (\<lambda>c. c = 36) 1 None True, Cls (\<lambda>c. c = 95) 1 None True,
       Cls (\<lambda>c. c = 36) 0 None True],
      [Cls (\<lambda>c. c = 8212) 1 None True],
      [Cls (\<lambda>c. c = 61) 1 None True],
      [Cls (\<lambda>c. py_isspace c \<and> c \<noteq> 10) 5 None True],
      [Cls (\<lambda>c. c = 46) 4 None True],
      [Cls (\<lambda>c. c = 45) 4 None True],
      [Cls (\<lambda>c. c = 95) 4 None True]]"

text \<open>\<open>self.term_fixes\<close> in the order of the dictionary.\<close>

definition term_fixes :: "(string \<times> string) list" where
  "term_fixes =
     [(''E U'', ''EU''), (''U K'', ''UK''), (''N H S'', ''NHS''), (''G D P'', ''GDP''),
      (''V A T'', ''VAT''), (''M P'', ''MP''), (''U N'', ''UN''), (''N A T O'', ''NATO''),
      (''E E A'', ''EEA''), (''U S'', ''US''), (''ls'', ''is''), (''lf'', ''If''),
      (''ln'', ''In'')]"

text \<open>
  \<open>self.ocr_char_replacements\<close> in the order of the dictionary. In the file the two
  lines written for the single smart quotes open and close a triple-quoted string, so
  the dictionary holds one long key there (a colon, a quoted apostrophe, the comment
  and the indentation of the next line), and the double quote twice, mapped to itself.
\<close>

definition ocr_char_replacements :: "(ustr \<times> ustr) list" where
  "ocr_char_replacements =
     [([124], [73]), ([48], [79]), ([49], [108]), ([65281], [33]), ([65311], [63]),
      ([65292], [44]), ([12290], [46]),
      ([58, 32, 34, 39, 34, 44, 32, 32, 35, 32] @ u ''Smart quotes'' @ [10] @ replicate 12 32,
       [39]),
      ([34], [34]), ([8211], [45]), ([8212], [45])]"

definition normalize_unicode :: "unicode_db \<Rightarrow> ustr \<Rightarrow> ustr" where
  "normalize_unicode U text =
     (let text = py_nfkc U text;
          text = fold (\<lambda>char t. py_replace [char] [] t) [8203, 8204, 8205, 65279, 8288] text
      in filter (\<lambda>char. char \<in> {10, 9} \<or> \<not> category_C U char) text)"

definition fix_ocr_character_errors :: "unicode_db \<Rightarrow> ustr \<Rightarrow> ustr" where
  "fix_ocr_character_errors U text =
     (let text = fold (\<lambda>(wrong, right) t. py_replace wrong right t) ocr_char_replacements text;
          text = re_sub U ([WordB] @ ilits U ''1ike'' @ [WordB]) [Lit (u ''like'')] text;
          text = re_sub U ([WordB] @ ilits U ''1ive'' @ [WordB]) [Lit (u ''live'')] text;
          text = re_sub U ([WordB] @ ilits U ''1ater'' @ [WordB]) [Lit (u ''later'')] text;
          text = re_sub U ([WordB] @ ilits U ''1ess'' @ [WordB]) [Lit (u ''less'')] text;
          text = re_sub U [Grp (Some 1) [[Bos], lits ''. ''], chr 108, WordB]
                   [Ref 1, Lit (u ''I'')] text;
          text = re_sub U ([WordB] @ lits ''ls'' @ [WordB]) [Lit (u ''is'')] text;
          text = re_sub U ([WordB] @ lits ''lf'' @ [WordB]) [Lit (u ''If'')] text;
          text = re_sub U ([WordB] @ lits ''ln'' @ [WordB]) [Lit (u ''In'')] text;
          text = re_sub U ([WordB] @ lits ''lt'' @ [WordB]) [Lit (u ''It'')] text;
          text = re_sub U ([WordB] @ lits ''ls'' @ [WordB]) [Lit (u ''is'')] text
      in text)"

definition remove_noise_patterns :: "unicode_db \<Rightarrow> ustr \<Rightarrow> ustr" where
  "remove_noise_patterns U text = fold (\<lambda>pattern t. re_sub U pattern [] t) (noise_patterns U) text"

definition fix_fragmented_text :: "unicode_db \<Rightarrow> ustr \<Rightarrow> ustr" where
  "fix_fragmented_text U text =
     (let text = fold (\<lambda>(fragmented, fixed) t.
                         re_sub U ([WordB] @ ilits U fragmented @ [WordB]) [Lit (u fixed)] t)
                   term_fixes text;
          text = re_sub U [WordB, Grp (Some 1) [[One ascii_letter]], Cls py_isspace 1 None True,
                           Grp (Some 2) [[One ascii_letter]], Cls py_isspace 1 None True,
                           Grp (Some 3) [[One ascii_letter]], WordB]
                   [Ref 1, Ref 2, Ref 3] text;
          text = re_sub U [WordB, Grp (Some 1) [[One (re_digit U)]], Cls py_isspace 1 None True,
                           Grp (Some 2) [[One (re_digit U)]], Cls py_isspace 1 None True,
                           Grp (Some 3) [[One (re_digit U)]], WordB]
                   [Ref 1, Ref 2, Ref 3] text;
          text = re_sub U [WordB, Grp (Some 1) [[One (re_digit U)]], Cls py_isspace 1 None True,
                           Grp (Some 2) [[One (re_digit U)]], WordB]
                   [Ref 1, Ref 2] text
      in text)"

definition fix_punctuation_spacing :: "unicode_db \<Rightarrow> ustr \<Rightarrow> ustr" where
  "fix_punctuation_spacing U text =
     (let text = re_sub U [Cls py_isspace 1 None True, Grp (Some 1) [[One (one_of ''.,;:!?'')]]]
                   [Ref 1] text;
          text = re_sub U [Grp (Some 1) [[One (one_of ''.,;:!?'')]], Ahead ascii_letter]
                   [Ref 1, Lit [32]] text;
          text = re_sub U [Grp (Some 1) [[One (re_digit U)]], Cls py_isspace 1 None True, chr 46,
                           Cls py_isspace 1 None True, Grp (Some 2) [[One (re_digit U)]]]
                   [Ref 1, Lit [46], Ref 2] text;
          text = re_sub U [Cls py_isspace 1 None True, chr 34] [Lit [32, 34]] text;
          text = re_sub U [chr 34, Cls py_isspace 1 None True] [Lit [34, 32]] text;
          text = re_sub U [Cls py_isspace 1 None True, chr 39] [Lit [32, 39]] text;
          text = re_sub U [chr 39, Cls py_isspace 1 None True] [Lit [39, 32]] text
      in text)"

text \<open>The line filters. Each is a loop over \<open>text.split('\n')\<close> that keeps or skips a
  line; the lines kept are joined again.\<close>

definition page_number_re :: "unicode_db \<Rightarrow> node list" where
  "page_number_re U =
     [Bos, Cls (\<lambda>c. c = 45) 0 (Some 1) True, Cls py_isspace 0 None True,
      Cls (re_digit U) 1 (Some 3) True, Cls py_isspace 0 None True,
      Cls (\<lambda>c. c = 45) 0 (Some 1) True, Eos]"

definition isolated_line :: "unicode_db \<Rightarrow> ustr \<Rightarrow> bool" where
  "isolated_line U line \<longleftrightarrow>
     (length line \<le> 2 \<and> \<not> py_isdigit U line
        \<and> line \<notin> set (map u [''UK'', ''EU'', ''US'', ''UN'', ''MP'', ''PM'']))
     \<or> (0 < length line
        \<and> 7 / 10 < (of_nat (length (filter in_punctuation line)) :: rat) / of_nat (length line))
     \<or> re_match U (page_number_re U) line \<noteq> None"

definition remove_isolated_characters :: "unicode_db \<Rightarrow> ustr \<Rightarrow> ustr" where
  "remove_isolated_characters U text =
     py_join [10] (filter (\<lambda>line. \<not> isolated_line U line) (map py_strip (split_sep [10] text)))"

definition fix_word_breaks :: "unicode_db \<Rightarrow> ustr \<Rightarrow> ustr" where
  "fix_word_breaks U text =
     (let text = re_sub U [Grp (Some 1) [[Cls (re_word U) 1 None True]], chr 45,
                           Cls py_isspace 0 None True, chr 10, Cls py_isspace 0 None True,
                           Grp (Some 2) [[Cls (re_word U) 1 None True]]]
                   [Ref 1, Ref 2] text
      in re_subf U [Grp (Some 1) [[Cls (re_word U) 1 None True]], chr 45,
                    Grp (Some 2) [[Cls (re_word U) 1 None True]]]
           (\<lambda>(b, e, cs).
              if 2 < length (group_text text cs 1) \<and> 2 < length (group_text text cs 2)
              then take (e - b) (drop b text)
              else group_text text cs 1 @ group_text text cs 2)
           text)"

definition blank_line_re :: "node list" where
  "blank_line_re = [Bos, Cls (\<lambda>c. py_isspace c \<or> c = 46 \<or> c = 95 \<or> c = 45) 0 None True, Eos]"

definition excessive_line :: "unicode_db \<Rightarrow> ustr \<Rightarrow> bool" where
  "excessive_line U line \<longleftrightarrow>
     re_match U blank_line_re line \<noteq> None
     \<or> (5 < length line \<and> length (remdups (py_strip line)) \<le> 2)"

definition remove_excessive_whitespace_lines :: "unicode_db \<Rightarrow> ustr \<Rightarrow> ustr" where
  "remove_excessive_whitespace_lines U text =
     py_join [10] (filter (\<lambda>line. \<not> excessive_line U line) (split_sep [10] text))"

text \<open>
  \<open>remove_header_footer_repetition\<close>: the first loop counts the normalised lines
  longer than 10 characters in a dictionary, the second walks the lines with the set
  \<open>seen_repetitive\<close> and the list \<open>filtered_lines\<close>.
\<close>

fun count_lines :: "unicode_db \<Rightarrow> ustr list \<Rightarrow> (ustr \<rightharpoonup> nat) \<Rightarrow> (ustr \<rightharpoonup> nat)" where
  "count_lines U [] line_counts = line_counts"
| "count_lines U (line # lines) line_counts =
     (let clean_line = py_lower U (py_strip line)
      in if 10 < length clean_line
         then count_lines U lines
                (line_counts(clean_line \<mapsto> (case line_counts clean_line of None \<Rightarrow> 0 | Some n \<Rightarrow> n) + 1))
         else count_lines U lines line_counts)"

fun filter_lines :: "unicode_db \<Rightarrow> (ustr \<rightharpoonup> nat) \<Rightarrow> ustr list \<Rightarrow> ustr set \<Rightarrow> ustr list \<Rightarrow> ustr list" where
  "filter_lines U line_counts [] seen_repetitive filtered_lines = filtered_lines"
| "filter_lines U line_counts (line # lines) seen_repetitive filtered_lines =
     (let clean_line = py_lower U (py_strip line)
      in if 2 < (case line_counts clean_line of None \<Rightarrow> 0 | Some n \<Rightarrow> n)
            \<and> clean_line \<notin> seen_repetitive \<and> 10 < length clean_line
         then filter_lines U line_counts lines (insert clean_line seen_repetitive) filtered_lines
         else if clean_line \<in> seen_repetitive
         then filter_lines U line_counts lines seen_repetitive filtered_lines
         else filter_lines U line_counts lines seen_repetitive (filtered_lines @ [line]))"

definition remove_header_footer_repetition :: "unicode_db \<Rightarrow> ustr \<Rightarrow> ustr" where
  "remove_header_footer_repetition U text =
     (let lines = split_sep [10] text;
          line_counts = count_lines U lines Map.empty
      in py_join [10] (filter_lines U line_counts lines {} []))"

text \<open>
  In the words of the specification: the form of a line that is counted, and a line that
  is repeated in a document. \<open>header_example\<close> is a document with a running header.
\<close>

definition normalized :: "unicode_db \<Rightarrow> ustr \<Rightarrow> ustr" where
  "normalized U line = py_lower U (py_strip line)"

definition repeated :: "unicode_db \<Rightarrow> ustr \<Rightarrow> ustr \<Rightarrow> bool" where
  "repeated U text line \<longleftrightarrow>
     10 < length (normalized U line)
     \<and> 2 < count_list (map (normalized U) (split_sep [10] text)) (normalized U line)"

definition header_example :: ustr where
  "header_example =
     u ''HM Government'' @ [10] @ u ''Introduction'' @ [10] @ u ''  hm government '' @ [10]
     @ u ''We will cut taxes.'' @ [10] @ u ''HM Government'' @ [10] @ u ''The end''
     @ [10] @ u ''HM GOVERNMENT''"

text \<open>\<open>fix_broken_sentences\<close>: per paragraph, the loop over the lines with
  \<open>current_sentence\<close> and \<open>fixed_lines\<close>.\<close>

fun join_sentences :: "unicode_db \<Rightarrow> ustr list \<Rightarrow> ustr \<Rightarrow> ustr list \<Rightarrow> ustr list" where
  "join_sentences U [] current_sentence fixed_lines =
     (if current_sentence \<noteq> [] then fixed_lines @ [current_sentence] else fixed_lines)"
| "join_sentences U (raw # lines) current_sentence fixed_lines =
     (let line = py_strip raw
      in if line = [] then join_sentences U lines current_sentence fixed_lines
         else if current_sentence \<noteq> [] \<and> \<not> one_of ''.!?:'' (last current_sentence)
                 \<and> py_islower U (hd line)
         then join_sentences U lines (current_sentence @ [32] @ line) fixed_lines
         else join_sentences U lines line
                (if current_sentence \<noteq> [] then fixed_lines @ [current_sentence] else fixed_lines))"

fun fix_paragraphs :: "unicode_db \<Rightarrow> ustr list \<Rightarrow> ustr list" where
  "fix_paragraphs U [] = []"
| "fix_paragraphs U (paragraph # paragraphs) =
     (if py_strip paragraph = [] then fix_paragraphs U paragraphs
      else (case join_sentences U (split_sep [10] paragraph) [] [] of
              [] \<Rightarrow> fix_paragraphs U paragraphs
            | fixed_lines \<Rightarrow> py_join [10] fixed_lines # fix_paragraphs U paragraphs))"

definition fix_broken_sentences :: "unicode_db \<Rightarrow> ustr \<Rightarrow> ustr" where
  "fix_broken_sentences U text = py_join [10, 10] (fix_paragraphs U (split_sep [10, 10] text))"

text \<open>\<open>normalize_spacing\<close>; \<open>paragraph_breaks\<close> is the pattern \<^verbatim>\<open>\n\s*\n\s*\n+\<close>, used
  again at the end of \<open>clean_text\<close>. The loop sees each line with the lines after
  it.\<close>

definition paragraph_breaks :: "node list" where
  "paragraph_breaks =
     [chr 10, Cls py_isspace 0 None True, chr 10, Cls py_isspace 0 None True,
      Cls (\<lambda>c. c = 10) 1 None True]"

fun mark_continuations :: "unicode_db \<Rightarrow> ustr list \<Rightarrow> ustr list" where
  "mark_continuations U [] = []"
| "mark_continuations U (raw # lines) =
     (let line = py_strip raw
      in if line = [] then [] # mark_continuations U lines
         else (case lines of
                 [] \<Rightarrow> [line]
               | next_line # _ \<Rightarrow>
                   (if \<not> (last line \<in> set (u ''.!?:;'') \<union> {34, 39})
                       \<and> py_strip next_line \<noteq> [] \<and> py_islower U (hd (py_strip next_line))
                    then line @ [32] else line) # mark_continuations U lines))"

definition normalize_spacing :: "unicode_db \<Rightarrow> ustr \<Rightarrow> ustr" where
  "normalize_spacing U text =
     (let text = re_sub U [Cls (\<lambda>c. c = 32) 1 None True] [Lit [32]] text;
          text = py_replace [9] [32] text;
          text = re_sub U paragraph_breaks [Lit [10, 10]] text
      in py_join [10] (mark_continuations U (split_sep [10] text)))"

definition clean_text :: "unicode_db \<Rightarrow> ustr \<Rightarrow> ustr" where
  "clean_text U text =
     (let text = normalize_unicode U text;
          text = fix_ocr_character_errors U text;
          text = remove_noise_patterns U text;
          text = fix_fragmented_text U text;
          text = fix_punctuation_spacing U text;
          text = remove_isolated_characters U text;
          text = fix_word_breaks U text;
          text = remove_excessive_whitespace_lines U text;
          text = remove_header_footer_repetition U text;
          text = fix_broken_sentences U text;
          text = normalize_spacing U text;
          text = re_sub U paragraph_breaks [Lit [10, 10]] text
      in py_strip text)"


text \<open>The characters a replacement template writes.\<close>

fun template_chars :: "tpart list \<Rightarrow> nat set" where
  "template_chars [] = {}"
| "template_chars (Lit l # ps) = set l \<union> template_chars ps"
| "template_chars (Ref g # ps) = template_chars ps"


section \<open>Results\<close>

subsection \<open>Selection and copy\<close>

lemma selection_loop_append:
  "selection_loop exists rows copied = copied @ selection_loop exists rows []"
proof (induction rows arbitrary: copied)
  case Nil
  show ?case by simp
next
  case (Cons row rows)
  show ?case
    using Cons.IH [of "copied @ [the (select_file exists row)]"]
          Cons.IH [of "[the (select_file exists row)]"] Cons.IH [of copied]
    by (cases "select_file exists row") simp_all
qed

text \<open>
  C9. For every row of the summary: if the file \<open>group_from_csv.txt\<close> exists it is
  the file selected, whatever the recommendation column holds; the recommended method
  decides only when that file does not exist (then the file
  \<open>group_recommendation_extraction.txt\<close> is selected if it exists, and the row is
  skipped otherwise). The loop copies exactly the files selected, in row order.
\<close>

theorem from_csv_always_preferred:
  "(exists (csv_filename (row_group row)) \<longrightarrow>
      (\<forall>r. select_file exists (row\<lparr>row_recommendation := r\<rparr>)
             = Some (csv_filename (row_group row))))
   \<and> (\<not> exists (csv_filename (row_group row)) \<longrightarrow>
      select_file exists row =
        (if exists (recommended_filename (row_group row) (row_recommendation row))
         then Some (recommended_filename (row_group row) (row_recommendation row))
         else None))
   \<and> selection_loop exists rows [] = List.map_filter (select_file exists) rows"
proof -
  have "selection_loop exists rows [] = List.map_filter (select_file exists) rows"
  proof (induction rows)
    case Nil
    show ?case by (simp add: List.map_filter_simps)
  next
    case (Cons row rows)
    show ?case
      using Cons.IH selection_loop_append [of exists rows "[the (select_file exists row)]"]
      by (cases "select_file exists row") (simp_all add: List.map_filter_simps)
  qed
  then show ?thesis by (simp add: select_file_def Let_def)
qed

theorem from_csv_always_preferred_witness:
  "select_file (\<lambda>f. f = u ''2019-12-labour_from_csv.txt''
                   \<or> f = u ''2019-12-labour_Tesseract_extraction.txt'')
     \<lparr>row_group = u ''2019-12-labour'', row_recommendation = u ''Tesseract''\<rparr>
   = Some (u ''2019-12-labour_from_csv.txt'')
   \<and> select_file (\<lambda>f. f = u ''2019-12-labour_Tesseract_extraction.txt'')
     \<lparr>row_group = u ''2019-12-labour'', row_recommendation = u ''Tesseract''\<rparr>
   = Some (u ''2019-12-labour_Tesseract_extraction.txt'')"
  using from_csv_always_preferred
    [of "\<lambda>f. f = u ''2019-12-labour_from_csv.txt''
              \<or> f = u ''2019-12-labour_Tesseract_extraction.txt''"
        "\<lparr>row_group = u ''2019-12-labour'', row_recommendation = u ''Tesseract''\<rparr>" "[]"]
    from_csv_always_preferred
    [of "\<lambda>f. f = u ''2019-12-labour_Tesseract_extraction.txt''"
        "\<lparr>row_group = u ''2019-12-labour'', row_recommendation = u ''Tesseract''\<rparr>" "[]"]
  by (simp add: csv_filename_def recommended_filename_def u_def)

subsection \<open>The first maximum\<close>

lemma max_from_mem: "max_from key best xs \<in> set (best # xs)"
  by (induction xs arbitrary: best) auto

lemma max_from_ge: "x \<in> set (best # xs) \<Longrightarrow> key x \<le> key (max_from key best xs)"
proof (induction xs arbitrary: best x)
  case Nil
  then show ?case by simp
next
  case (Cons y ys)
  have mono: "key b \<le> key (max_from key b ys)" for b
    using Cons.IH [of b b] by simp
  show ?case
  proof (cases "x \<in> set ys")
    case True
    then show ?thesis using Cons.IH by simp
  next
    case False
    with Cons.prems have "x = best \<or> x = y" by auto
    then show ?thesis
      using mono [of y] mono [of best] by (auto simp: not_less intro: order_trans)
  qed
qed

lemma py_max_spec:
  assumes "xs \<noteq> []"
  shows "\<exists>b. py_max key xs = Inr b \<and> b \<in> set xs \<and> (\<forall>x \<in> set xs. key x \<le> key b)"
proof -
  from assms obtain y ys where xs: "xs = y # ys" by (cases xs) auto
  show ?thesis
    unfolding xs using max_from_mem [of key y ys] max_from_ge [of _ y ys key] by auto
qed

subsection \<open>The simple quality score\<close>

lemma best_method_spec:
  assumes "mbm \<noteq> []"
  shows "\<exists>b mb. best_method mbm = Inr b \<and> (b, mb) \<in> set mbm
           \<and> (\<forall>(m, mt) \<in> set mbm. quality_score mt \<le> quality_score mb)"
proof -
  let ?ps = "map (\<lambda>(m, metrics). (m, quality_score metrics)) mbm"
  from assms have "?ps \<noteq> []" by simp
  from py_max_spec [OF this, of snd]
  obtain p where p: "py_max snd ?ps = Inr p" "p \<in> set ?ps" "\<forall>x \<in> set ?ps. snd x \<le> snd p"
    by blast
  from p(2) obtain b mb where b: "(b, mb) \<in> set mbm" "p = (b, quality_score mb)" by auto
  have "best_method mbm = Inr b" using p(1) b(2) by (simp add: best_method_def)
  moreover have "\<forall>(m, mt) \<in> set mbm. quality_score mt \<le> quality_score mb"
  proof safe
    fix m mt assume "(m, mt) \<in> set mbm"
    then have "(m, quality_score mt) \<in> set ?ps" by force
    with p(3) b(2) show "quality_score mt \<le> quality_score mb" by fastforce
  qed
  ultimately show ?thesis using b(1) by blast
qed

text \<open>
  C1. The quality score of a candidate is \<open>word_count * (1 - ocr_error_rate)\<close>; for a
  group with at least one candidate the election returns a method of the group whose
  score no other candidate exceeds. For word counts 500, 480, 300 and error rates
  0, 0.02, 0.25 the scores are 500, 470.4 and 225, and \<open>from_csv\<close> wins in whatever
  order the three candidates were met.
\<close>

theorem quality_score_elects_maximum:
  "quality_score metrics = of_nat (mt_word_count metrics) * (1 - mt_ocr_error_rate metrics)
   \<and> (mbm \<noteq> [] \<longrightarrow>
        (\<exists>b mb. best_method mbm = Inr b \<and> (b, mb) \<in> set mbm
           \<and> (\<forall>(m, mt) \<in> set mbm. quality_score mt \<le> quality_score mb)))
   \<and> (mt_word_count s = 500 \<and> mt_ocr_error_rate s = 0
        \<and> mt_word_count n = 480 \<and> mt_ocr_error_rate n = 2 / 100
        \<and> mt_word_count t = 300 \<and> mt_ocr_error_rate t = 25 / 100
        \<and> set grp = {(u ''from_csv'', s), (u ''pymupdf'', n), (u ''tesseract'', t)}
      \<longrightarrow> quality_score s = 500 \<and> quality_score n = 4704 / 10 \<and> quality_score t = 225
          \<and> best_method grp = Inr (u ''from_csv''))"
proof (intro conjI impI)
  show "quality_score metrics = of_nat (mt_word_count metrics) * (1 - mt_ocr_error_rate metrics)"
    by (simp add: quality_score_def)
next
  assume "mbm \<noteq> []"
  then show "\<exists>b mb. best_method mbm = Inr b \<and> (b, mb) \<in> set mbm
           \<and> (\<forall>(m, mt) \<in> set mbm. quality_score mt \<le> quality_score mb)"
    by (rule best_method_spec)
next
  assume a: "mt_word_count s = 500 \<and> mt_ocr_error_rate s = 0
        \<and> mt_word_count n = 480 \<and> mt_ocr_error_rate n = 2 / 100
        \<and> mt_word_count t = 300 \<and> mt_ocr_error_rate t = 25 / 100
        \<and> set grp = {(u ''from_csv'', s), (u ''pymupdf'', n), (u ''tesseract'', t)}"
  show qs: "quality_score s = 500" using a by (simp add: quality_score_def)
  show qn: "quality_score n = 4704 / 10" using a by (simp add: quality_score_def)
  show qt: "quality_score t = 225" using a by (simp add: quality_score_def)
  from a have "grp \<noteq> []" by auto
  from best_method_spec [OF this] obtain b mb where
    b: "best_method grp = Inr b" "(b, mb) \<in> set grp"
       "\<forall>(m, mt) \<in> set grp. quality_score mt \<le> quality_score mb"
    by blast
  from a have "(u ''from_csv'', s) \<in> set grp" by simp
  with b(3) have "500 \<le> quality_score mb" using qs by fastforce
  moreover from b(2) a have "(b, mb) = (u ''from_csv'', s) \<or> (b, mb) = (u ''pymupdf'', n)
      \<or> (b, mb) = (u ''tesseract'', t)" by simp
  ultimately have "b = u ''from_csv''" using qn qt by auto
  with b(1) show "best_method grp = Inr (u ''from_csv'')" by simp
qed

theorem quality_score_elects_maximum_witness:
  "best_method
     [(u ''tesseract'', \<lparr>mt_word_count = 300, mt_sentence_count = 20, mt_char_count = 1800,
         mt_avg_word_length = 5, mt_punctuation_frequency = 0, mt_lexical_diversity = 1 / 2,
         mt_ocr_error_rate = 25 / 100\<rparr>),
      (u ''pymupdf'', \<lparr>mt_word_count = 480, mt_sentence_count = 20, mt_char_count = 2800,
         mt_avg_word_length = 5, mt_punctuation_frequency = 0, mt_lexical_diversity = 1 / 2,
         mt_ocr_error_rate = 2 / 100\<rparr>),
      (u ''from_csv'', \<lparr>mt_word_count = 500, mt_sentence_count = 20, mt_char_count = 3000,
         mt_avg_word_length = 5, mt_punctuation_frequency = 0, mt_lexical_diversity = 1 / 2,
         mt_ocr_error_rate = 0\<rparr>)]
   = Inr (u ''from_csv'')"
  using quality_score_elects_maximum
    [of _ "[]"
        "\<lparr>mt_word_count = 500, mt_sentence_count = 20, mt_char_count = 3000,
         mt_avg_word_length = 5, mt_punctuation_frequency = 0, mt_lexical_diversity = 1 / 2,
         mt_ocr_error_rate = 0\<rparr>"
        "\<lparr>mt_word_count = 480, mt_sentence_count = 20, mt_char_count = 2800,
         mt_avg_word_length = 5, mt_punctuation_frequency = 0, mt_lexical_diversity = 1 / 2,
         mt_ocr_error_rate = 2 / 100\<rparr>"
        "\<lparr>mt_word_count = 300, mt_sentence_count = 20, mt_char_count = 1800,
         mt_avg_word_length = 5, mt_punctuation_frequency = 0, mt_lexical_diversity = 1 / 2,
         mt_ocr_error_rate = 25 / 100\<rparr>"
        "[(u ''tesseract'', \<lparr>mt_word_count = 300, mt_sentence_count = 20, mt_char_count = 1800,
         mt_avg_word_length = 5, mt_punctuation_frequency = 0, mt_lexical_diversity = 1 / 2,
         mt_ocr_error_rate = 25 / 100\<rparr>),
      (u ''pymupdf'', \<lparr>mt_word_count = 480, mt_sentence_count = 20, mt_char_count = 2800,
         mt_avg_word_length = 5, mt_punctuation_frequency = 0, mt_lexical_diversity = 1 / 2,
         mt_ocr_error_rate = 2 / 100\<rparr>),
      (u ''from_csv'', \<lparr>mt_word_count = 500, mt_sentence_count = 20, mt_char_count = 3000,
         mt_avg_word_length = 5, mt_punctuation_frequency = 0, mt_lexical_diversity = 1 / 2,
         mt_ocr_error_rate = 0\<rparr>)]"]
  by auto


subsection \<open>Grouping by file name\<close>

lemmas key_eval = extract_group_key_def re_match_def key_re_def lits_def chr_def u_def dot_def
  closing_def group_text_def below_def

lemma key_tesseract:
  "extract_group_key U (u ''2019-12-liberal_democrats_tesseract_extraction.txt'')
     = Some (u ''2019-12-liberal_democrats'')"
  by (simp add: key_eval)

lemma key_from_csv:
  "extract_group_key U (u ''2019-12-liberal_democrats_from_csv.txt'')
     = Some (u ''2019-12-liberal_democrats'')"
  by (simp add: key_eval)

lemma key_notes: "extract_group_key U (u ''notes.txt'') = None"
  by (simp add: key_eval)

lemma in_tesseract:
  "py_in (u ''_tesseract_extraction'') (u ''2019-12-liberal_democrats_tesseract_extraction.txt'')"
  by (simp add: u_def)

lemma in_from_csv:
  "\<not> py_in (u ''_tesseract_extraction'') (u ''2019-12-liberal_democrats_from_csv.txt'')
   \<and> \<not> py_in (u ''_pymupdf_extraction'') (u ''2019-12-liberal_democrats_from_csv.txt'')
   \<and> py_in (u ''_from_csv'') (u ''2019-12-liberal_democrats_from_csv.txt'')"
  by (simp add: u_def)

text \<open>
  C6. The file name \<open>2019-12-liberal_democrats_tesseract_extraction.txt\<close> is put
  under the key \<open>2019-12-liberal_democrats\<close> in the slot \<open>tesseract_extraction\<close>,
  the name \<open>2019-12-liberal_democrats_from_csv.txt\<close> under the same key in the slot
  \<open>from_csv\<close>; a file whose name the pattern does not match leaves the groups as
  they are, and \<open>notes.txt\<close> is such a name.
\<close>

theorem identity_grouper_examples:
  "group_step U [] \<lparr>f_name = u ''2019-12-liberal_democrats_tesseract_extraction.txt'', f_text = t\<rparr>
     = [(u ''2019-12-liberal_democrats'',
         [(u ''tesseract_extraction'',
           \<lparr>f_name = u ''2019-12-liberal_democrats_tesseract_extraction.txt'', f_text = t\<rparr>)])]
   \<and> group_step U [] \<lparr>f_name = u ''2019-12-liberal_democrats_from_csv.txt'', f_text = t'\<rparr>
     = [(u ''2019-12-liberal_democrats'',
         [(u ''from_csv'',
           \<lparr>f_name = u ''2019-12-liberal_democrats_from_csv.txt'', f_text = t'\<rparr>)])]
   \<and> (extract_group_key U (f_name f) = None \<longrightarrow> group_step U grouped f = grouped)
   \<and> extract_group_key U (u ''notes.txt'') = None"
proof (intro conjI impI)
  have ne: "u ''2019-12-liberal_democrats'' \<noteq> []" by (simp add: u_def)
  show "group_step U [] \<lparr>f_name = u ''2019-12-liberal_democrats_tesseract_extraction.txt'', f_text = t\<rparr>
     = [(u ''2019-12-liberal_democrats'',
         [(u ''tesseract_extraction'',
           \<lparr>f_name = u ''2019-12-liberal_democrats_tesseract_extraction.txt'', f_text = t\<rparr>)])]"
    using ne by (simp add: group_step_def key_tesseract in_tesseract dict_get_def)
  show "group_step U [] \<lparr>f_name = u ''2019-12-liberal_democrats_from_csv.txt'', f_text = t'\<rparr>
     = [(u ''2019-12-liberal_democrats'',
         [(u ''from_csv'',
           \<lparr>f_name = u ''2019-12-liberal_democrats_from_csv.txt'', f_text = t'\<rparr>)])]"
    using ne by (simp add: group_step_def key_from_csv in_from_csv dict_get_def)
  show "extract_group_key U (u ''notes.txt'') = None" by (rule key_notes)
next
  assume "extract_group_key U (f_name f) = None"
  then show "group_step U grouped f = grouped" by (simp add: group_step_def)
qed

theorem identity_grouper_examples_witness:
  "group_step ascii_db [] \<lparr>f_name = u ''notes.txt'', f_text = u ''shopping list''\<rparr> = []"
  using identity_grouper_examples
    [of ascii_db _ _ "\<lparr>f_name = u ''notes.txt'', f_text = u ''shopping list''\<rparr>" "[]"]
  by simp


subsection \<open>Guarded division\<close>

lemma truediv_guard: "truediv a (of_nat (max n 1)) = Inr (a / of_nat (max n 1))"
  by (simp add: truediv_def max_def)

lemma ratio_bounds:
  assumes "a \<le> n"
  shows "0 \<le> (of_nat a :: rat) / of_nat (max n 1) \<and> (of_nat a :: rat) / of_nat (max n 1) \<le> 1"
proof -
  have "(of_nat a :: rat) \<le> of_nat (max n 1)" using assms by (simp add: max_def)
  moreover have "(0 :: rat) < of_nat (max n 1)" by (simp add: max_def)
  ultimately show ?thesis by (simp add: divide_le_eq_1)
qed

lemma ocr_error_rate_total: "\<exists>r. ocr_error_rate U text = Inr r \<and> 0 \<le> r \<and> r \<le> 1"
  unfolding ocr_error_rate_def truediv_guard
  using ratio_bounds [OF length_filter_le] by blast

lemma punctuation_frequency_total: "\<exists>r. punctuation_frequency text = Inr r \<and> 0 \<le> r \<and> r \<le> 1"
  unfolding punctuation_frequency_def truediv_guard
  using ratio_bounds [OF length_filter_le] by blast

lemma average_word_length_total: "\<exists>r. average_word_length text = Inr r \<and> 0 \<le> r"
  unfolding average_word_length_def Let_def truediv_guard by simp

subsection \<open>The lists of a group\<close>


subsection \<open>The scores and the first maximum\<close>













subsection \<open>Facts about the matcher\<close>




subsection \<open>The batch comparison\<close>







subsection \<open>Metrics are total\<close>

lemma suspicious_loop_le: "suspicious_loop U ws n \<le> n + length ws"
proof (induction ws arbitrary: n)
  case Nil
  show ?case by simp
next
  case (Cons w ws)
  show ?case using Cons.IH [of "n + 1"] Cons.IH [of n] by auto
qed

lemma ocr_error_heuristic_total:
  "\<exists>r. ocr_error_heuristic U words = Inr r \<and> 0 \<le> r \<and> r \<le> 1"
  unfolding ocr_error_heuristic_def truediv_guard
  using ratio_bounds [of "suspicious_loop U words 0" "length words"] suspicious_loop_le [of U words 0]
  by auto

lemma sum_lengths_empty: "length ws = 0 \<Longrightarrow> sum_list (map length ws) = 0"
  by simp

text \<open>
  C4. For every text \<open>_compute_metrics\<close> returns (no division by zero is met), with
  \<open>punctuation_frequency\<close>, \<open>lexical_diversity\<close> and \<open>ocr_error_rate\<close> between 0
  and 1, and its \<open>avg_word_length\<close>, guarded by a test on the word count, is the
  quotient by the word count floored at 1. The three divisions of text_comparison.py
  floor the divisor at 1 and return as well, the two ratios between 0 and 1. On the
  empty text every value is 0.
\<close>

theorem metrics_total_and_bounded:
  "(\<exists>mt. compute_metrics U text = Inr mt
       \<and> 0 \<le> mt_punctuation_frequency mt \<and> mt_punctuation_frequency mt \<le> 1
       \<and> 0 \<le> mt_lexical_diversity mt \<and> mt_lexical_diversity mt \<le> 1
       \<and> 0 \<le> mt_ocr_error_rate mt \<and> mt_ocr_error_rate mt \<le> 1
       \<and> mt_avg_word_length mt
           = of_nat (sum_list (map length (tokenise text))) / of_nat (max (length (tokenise text)) 1))
   \<and> (\<exists>r. ocr_error_rate U text = Inr r \<and> 0 \<le> r \<and> r \<le> 1)
   \<and> (\<exists>r. punctuation_frequency text = Inr r \<and> 0 \<le> r \<and> r \<le> 1)
   \<and> (\<exists>r. average_word_length text = Inr r \<and> 0 \<le> r)
   \<and> compute_metrics U [] =
         Inr \<lparr>mt_word_count = 0, mt_sentence_count = 0, mt_char_count = 0,
              mt_avg_word_length = 0, mt_punctuation_frequency = 0,
              mt_lexical_diversity = 0, mt_ocr_error_rate = 0\<rparr>
   \<and> ocr_error_rate U [] = Inr 0 \<and> punctuation_frequency [] = Inr 0
   \<and> average_word_length [] = Inr 0"
proof (intro conjI)
  let ?words = "tokenise text"
  obtain oer where oer: "ocr_error_heuristic U ?words = Inr oer" "0 \<le> oer" "oer \<le> 1"
    using ocr_error_heuristic_total by blast
  have avg: "(if length ?words \<noteq> 0
               then truediv (of_nat (sum_list (map length ?words))) (of_nat (length ?words))
               else Inr 0)
       = Inr (of_nat (sum_list (map length ?words)) / of_nat (max (length ?words) 1))"
  proof (cases "length ?words = 0")
    case True
    then show ?thesis by simp
  next
    case False
    then have "1 \<le> length ?words" by (cases ?words) simp_all
    then have "max (length ?words) 1 = length ?words" by (rule max_absorb1)
    with False show ?thesis by (simp add: truediv_def)
  qed
  have ld: "length (remdups ?words) \<le> length ?words" by (rule length_remdups_leq)
  show "\<exists>mt. compute_metrics U text = Inr mt
       \<and> 0 \<le> mt_punctuation_frequency mt \<and> mt_punctuation_frequency mt \<le> 1
       \<and> 0 \<le> mt_lexical_diversity mt \<and> mt_lexical_diversity mt \<le> 1
       \<and> 0 \<le> mt_ocr_error_rate mt \<and> mt_ocr_error_rate mt \<le> 1
       \<and> mt_avg_word_length mt
           = of_nat (sum_list (map length ?words)) / of_nat (max (length ?words) 1)"
    unfolding compute_metrics_def Let_def avg truediv_guard
    using oer ratio_bounds [OF ld] ratio_bounds [OF length_filter_le [of in_punctuation "text"]]
    by simp
  show "\<exists>r. ocr_error_rate U text = Inr r \<and> 0 \<le> r \<and> r \<le> 1" by (rule ocr_error_rate_total)
  show "\<exists>r. punctuation_frequency text = Inr r \<and> 0 \<le> r \<and> r \<le> 1"
    by (rule punctuation_frequency_total)
  show "\<exists>r. average_word_length text = Inr r \<and> 0 \<le> r" by (rule average_word_length_total)
  show "compute_metrics U [] =
         Inr \<lparr>mt_word_count = 0, mt_sentence_count = 0, mt_char_count = 0,
              mt_avg_word_length = 0, mt_punctuation_frequency = 0,
              mt_lexical_diversity = 0, mt_ocr_error_rate = 0\<rparr>"
    by (simp add: compute_metrics_def tokenise_def py_split_def re_split_def search_def
          sentence_boundary_def closing_def ocr_error_heuristic_def truediv_def py_strip_def)
  show "ocr_error_rate U [] = Inr 0"
    by (simp add: ocr_error_rate_def py_split_def truediv_def)
  show "punctuation_frequency [] = Inr 0" by (simp add: punctuation_frequency_def truediv_def)
  show "average_word_length [] = Inr 0"
    by (simp add: average_word_length_def py_split_def truediv_def)
qed

theorem metrics_total_and_bounded_witness:
  "\<exists>mt. compute_metrics ascii_db (u ''l0ve it.'') = Inr mt
       \<and> 0 \<le> mt_ocr_error_rate mt \<and> mt_ocr_error_rate mt \<le> 1"
  using metrics_total_and_bounded [of ascii_db "u ''l0ve it.''"] by blast


subsection \<open>Searching\<close>

lemma search_loop_iff:
  "search_loop U re pre suf b 0 \<noteq> None \<longleftrightarrow>
     (\<exists>s1 s2. suf = s1 @ s2 \<and> m U (rev s1 @ pre) s2 (b + length s1) 0 Map.empty re \<noteq> None)"
proof (induction suf arbitrary: pre b)
  case Nil
  show ?case by (auto split: option.splits)
next
  case (Cons c suf)
  show ?case
  proof (cases "m U pre (c # suf) b 0 Map.empty re")
    case (Some r)
    then have "search_loop U re pre (c # suf) b 0 \<noteq> None" by (cases r) simp
    moreover have "\<exists>s1 s2. c # suf = s1 @ s2
        \<and> m U (rev s1 @ pre) s2 (b + length s1) 0 Map.empty re \<noteq> None"
      using Some by (intro exI [of _ "[]"] exI [of _ "c # suf"]) simp
    ultimately show ?thesis by blast
  next
    case None
    have "search_loop U re pre (c # suf) b 0 \<noteq> None
        \<longleftrightarrow> search_loop U re (c # pre) suf (Suc b) 0 \<noteq> None"
      using None by simp
    also have "\<dots> \<longleftrightarrow> (\<exists>s1 s2. suf = s1 @ s2
        \<and> m U (rev s1 @ c # pre) s2 (Suc b + length s1) 0 Map.empty re \<noteq> None)"
      by (rule Cons.IH)
    also have "\<dots> \<longleftrightarrow> (\<exists>s1 s2. c # suf = s1 @ s2
        \<and> m U (rev s1 @ pre) s2 (b + length s1) 0 Map.empty re \<noteq> None)"
    proof
      assume "\<exists>s1 s2. suf = s1 @ s2
        \<and> m U (rev s1 @ c # pre) s2 (Suc b + length s1) 0 Map.empty re \<noteq> None"
      then obtain s1 s2 where "suf = s1 @ s2"
        "m U (rev s1 @ c # pre) s2 (Suc b + length s1) 0 Map.empty re \<noteq> None" by blast
      then show "\<exists>s1 s2. c # suf = s1 @ s2
        \<and> m U (rev s1 @ pre) s2 (b + length s1) 0 Map.empty re \<noteq> None"
        by (intro exI [of _ "c # s1"] exI [of _ s2]) simp
    next
      assume "\<exists>s1 s2. c # suf = s1 @ s2
        \<and> m U (rev s1 @ pre) s2 (b + length s1) 0 Map.empty re \<noteq> None"
      then obtain s1 s2 where s: "c # suf = s1 @ s2"
        "m U (rev s1 @ pre) s2 (b + length s1) 0 Map.empty re \<noteq> None" by blast
      with None obtain t where t: "s1 = c # t" by (cases s1) auto
      with s show "\<exists>s1 s2. suf = s1 @ s2
        \<and> m U (rev s1 @ c # pre) s2 (Suc b + length s1) 0 Map.empty re \<noteq> None"
        by (intro exI [of _ t] exI [of _ s2]) simp
    qed
    finally show ?thesis .
  qed
qed

lemma re_search_iff:
  "re_search U re s \<noteq> None \<longleftrightarrow>
     (\<exists>s1 s2. s = s1 @ s2 \<and> m U (rev s1) s2 (length s1) 0 Map.empty re \<noteq> None)"
  using search_loop_iff [of U re "[]" s 0] by (simp add: re_search_def search_def)

lemma rep_star_then_one:
  "list_all dot suf \<Longrightarrow>
     rep U dot 0 None True n pre suf i 0 cs [One Q] \<noteq> None \<longleftrightarrow> list_ex Q suf"
proof (induction suf arbitrary: n pre i)
  case Nil
  show ?case by simp
next
  case (Cons c suf)
  then have c: "dot c" and rest: "list_all dot suf" by simp_all
  show ?case
    using Cons.IH [OF rest, of "Suc n" "c # pre" "Suc i"] c
    by (auto simp: below_def split: option.splits)
qed

lemma one_star_one:
  "list_all dot suf \<Longrightarrow>
     m U pre suf i 0 cs [One P, Cls dot 0 None True, One Q] \<noteq> None \<longleftrightarrow>
       (\<exists>c rest. suf = c # rest \<and> P c \<and> list_ex Q rest)"
proof (cases suf)
  case Nil
  then show ?thesis by simp
next
  case (Cons c rest)
  assume "list_all dot suf"
  with Cons have "list_all dot rest" by simp
  from rep_star_then_one [OF this, of U 0 "c # pre" "Suc i" cs Q] Cons show ?thesis by simp
qed

lemma both_kinds:
  assumes "\<And>c. \<not> (A c \<and> B c)"
  shows "(\<exists>s1 c rest. w = s1 @ c # rest \<and> (A c \<and> list_ex B rest \<or> B c \<and> list_ex A rest))
           \<longleftrightarrow> list_ex A w \<and> list_ex B w"
proof
  assume "\<exists>s1 c rest. w = s1 @ c # rest \<and> (A c \<and> list_ex B rest \<or> B c \<and> list_ex A rest)"
  then show "list_ex A w \<and> list_ex B w" by (auto simp: list_ex_iff)
next
  assume "list_ex A w \<and> list_ex B w"
  then obtain i j where i: "i < length w" "A (w ! i)" and j: "j < length w" "B (w ! j)"
    by (auto simp: list_ex_iff in_set_conv_nth)
  have ne: "i \<noteq> j" using assms i(2) j(2) by auto
  have pick: "\<exists>s1 c rest. w = s1 @ c # rest \<and> X c \<and> list_ex Y rest"
    if "a < b" "b < length w" "X (w ! a)" "Y (w ! b)" for a b X Y
  proof (intro exI conjI)
    show "w = take a w @ w ! a # drop (Suc a) w" using that by (simp add: id_take_nth_drop)
    show "X (w ! a)" by fact
    have "w ! b \<in> set (drop (Suc a) w)"
      using that by (auto simp: in_set_conv_nth intro!: exI [of _ "b - Suc a"])
    then show "list_ex Y (drop (Suc a) w)" using that(4) by (auto simp: list_ex_iff)
  qed
  from ne consider "i < j" | "j < i" by linarith
  then show "\<exists>s1 c rest. w = s1 @ c # rest \<and> (A c \<and> list_ex B rest \<or> B c \<and> list_ex A rest)"
  proof cases
    case 1
    from pick [of i j A B, OF 1 j(1) i(2) j(2)] show ?thesis by blast
  next
    case 2
    from pick [of j i B A, OF 2 i(1) j(2) i(2)] show ?thesis by blast
  qed
qed

lemma mixed_search:
  assumes "list_all dot w"
  shows "re_search U (mixed_re U) w \<noteq> None \<longleftrightarrow> list_ex ascii_letter w \<and> list_ex (re_digit U) w"
proof -
  have disj: "\<not> (ascii_letter c \<and> re_digit U c)" for c
    by (auto simp: ascii_letter_def ascii_upper_def ascii_lower_def re_digit_def ascii_digit_def)
  have alt: "m U pre suf i 0 Map.empty (mixed_re U) \<noteq> None \<longleftrightarrow>
      (\<exists>c rest. suf = c # rest \<and> (ascii_letter c \<and> list_ex (re_digit U) rest
                                   \<or> re_digit U c \<and> list_ex ascii_letter rest))"
    if "list_all dot suf" for pre suf i
    using one_star_one [OF that, of U pre i Map.empty ascii_letter "re_digit U"]
          one_star_one [OF that, of U pre i Map.empty "re_digit U" ascii_letter]
    by (auto simp: mixed_re_def closing_def split: option.splits)
  have "re_search U (mixed_re U) w \<noteq> None \<longleftrightarrow>
      (\<exists>s1 s2. w = s1 @ s2 \<and> m U (rev s1) s2 (length s1) 0 Map.empty (mixed_re U) \<noteq> None)"
    by (rule re_search_iff)
  also have "\<dots> \<longleftrightarrow> (\<exists>s1 c rest. w = s1 @ c # rest
      \<and> (ascii_letter c \<and> list_ex (re_digit U) rest \<or> re_digit U c \<and> list_ex ascii_letter rest))"
  proof
    assume "\<exists>s1 s2. w = s1 @ s2 \<and> m U (rev s1) s2 (length s1) 0 Map.empty (mixed_re U) \<noteq> None"
    then obtain s1 s2 where s: "w = s1 @ s2"
      "m U (rev s1) s2 (length s1) 0 Map.empty (mixed_re U) \<noteq> None" by blast
    from s(1) assms have "list_all dot s2" by simp
    from alt [OF this] s show "\<exists>s1 c rest. w = s1 @ c # rest
      \<and> (ascii_letter c \<and> list_ex (re_digit U) rest \<or> re_digit U c \<and> list_ex ascii_letter rest)"
      by blast
  next
    assume "\<exists>s1 c rest. w = s1 @ c # rest
      \<and> (ascii_letter c \<and> list_ex (re_digit U) rest \<or> re_digit U c \<and> list_ex ascii_letter rest)"
    then obtain s1 c rest where s: "w = s1 @ c # rest"
      "ascii_letter c \<and> list_ex (re_digit U) rest \<or> re_digit U c \<and> list_ex ascii_letter rest"
      by blast
    from s(1) assms have "list_all dot (c # rest)" by simp
    from alt [OF this, of "rev s1" "length s1"] s
    show "\<exists>s1 s2. w = s1 @ s2 \<and> m U (rev s1) s2 (length s1) 0 Map.empty (mixed_re U) \<noteq> None"
      by blast
  qed
  also have "\<dots> \<longleftrightarrow> list_ex ascii_letter w \<and> list_ex (re_digit U) w"
    using disj by (rule both_kinds)
  finally show ?thesis .
qed

subsection \<open>Words\<close>

lemma split_acc_words:
  "\<forall>c \<in> set w. \<not> py_isspace c \<Longrightarrow> x \<in> set (split_acc w s) \<Longrightarrow> x \<noteq> [] \<and> (\<forall>c \<in> set x. \<not> py_isspace c)"
proof (induction s arbitrary: w)
  case Nil
  then have "x = w" "w \<noteq> []" by (simp_all split: if_splits)
  with Nil.prems(1) show ?case by simp
next
  case (Cons c s)
  have ih0: "x \<in> set (split_acc [] s) \<Longrightarrow> x \<noteq> [] \<and> (\<forall>c \<in> set x. \<not> py_isspace c)"
    using Cons.IH [of "[]"] by simp
  show ?case
  proof (cases "py_isspace c")
    case True
    with Cons.prems(2) have "x \<in> set (split_acc [] s) \<or> (x = w \<and> w \<noteq> [])"
      by (cases "w = []") auto
    with ih0 Cons.prems(1) show ?thesis by blast
  next
    case False
    with Cons.prems(1) have "\<forall>d \<in> set (w @ [c]). \<not> py_isspace d" by simp
    moreover from False Cons.prems(2) have "x \<in> set (split_acc (w @ [c]) s)" by simp
    ultimately show ?thesis by (rule Cons.IH)
  qed
qed

lemma py_split_words:
  "w \<in> set (py_split s) \<Longrightarrow> w \<noteq> [] \<and> (\<forall>c \<in> set w. \<not> py_isspace c) \<and> list_all dot w"
proof -
  assume "w \<in> set (py_split s)"
  from split_acc_words [of "[]" w s] this
  have a: "w \<noteq> [] \<and> (\<forall>c \<in> set w. \<not> py_isspace c)" by (simp add: py_split_def)
  moreover have "py_isspace 10" by (simp add: py_isspace_def)
  ultimately show ?thesis by (auto simp: list_all_iff dot_def)
qed

subsection \<open>The suspicious fraction\<close>

lemma suspicious_cascade:
  assumes "list_all dot w"
  shows "(65533 \<in> set w \<or> re_search U (mixed_re U) w \<noteq> None \<or> list_ex (\<lambda>ch. 127 < ch) w)
           \<longleftrightarrow> suspicious_word w"
proof -
  have d: "re_digit U c \<Longrightarrow> ascii_digit c \<or> 127 < c" for c
    by (cases "c < 128") (simp_all add: re_digit_def)
  have a: "ascii_digit c \<Longrightarrow> re_digit U c" for c
    by (simp add: re_digit_def ascii_digit_def)
  define R where "R \<longleftrightarrow> 65533 \<in> set w"
  define L where "L \<longleftrightarrow> list_ex ascii_letter w"
  define D where "D \<longleftrightarrow> list_ex ascii_digit w"
  define D' where "D' \<longleftrightarrow> list_ex (re_digit U) w"
  define H where "H \<longleftrightarrow> list_ex (\<lambda>c. 127 < c) w"
  have 1: "D' \<Longrightarrow> D \<or> H" unfolding D'_def D_def H_def list_ex_iff using d by blast
  have 2: "D \<Longrightarrow> D'" unfolding D'_def D_def list_ex_iff using a by blast
  have s: "re_search U (mixed_re U) w \<noteq> None \<longleftrightarrow> L \<and> D'"
    unfolding L_def D'_def by (rule mixed_search [OF assms])
  have "(R \<or> (L \<and> D') \<or> H) \<longleftrightarrow> (R \<or> (L \<and> D) \<or> H)" using 1 2 by blast
  then show ?thesis
    unfolding s suspicious_word_def R_def [symmetric] L_def [symmetric] D_def [symmetric]
      H_def [symmetric] .
qed

lemma suspicious_loop_count:
  "\<forall>w \<in> set ws. list_all dot w \<Longrightarrow>
     suspicious_loop U ws n = n + length (filter suspicious_word ws)"
proof (induction ws arbitrary: n)
  case Nil
  show ?case by simp
next
  case (Cons w ws)
  then have w: "list_all dot w" and ws: "\<forall>w \<in> set ws. list_all dot w" by simp_all
  show ?case
    using suspicious_cascade [OF w, of U] Cons.IH [OF ws, of "n + 1"] Cons.IH [OF ws, of n]
    by auto
qed

lemma ocr_error_heuristic_fraction:
  "ocr_error_heuristic U (tokenise text) = Inr (suspicious_fraction text)"
proof -
  have "\<forall>w \<in> set (py_split text). list_all dot w" using py_split_words by blast
  from suspicious_loop_count [OF this, of U 0] show ?thesis
    unfolding ocr_error_heuristic_def tokenise_def suspicious_fraction_def truediv_guard
    by simp
qed

lemma compute_metrics_ocr_error_rate:
  "compute_metrics U text = Inr mt \<Longrightarrow> mt_ocr_error_rate mt = suspicious_fraction text"
  using ocr_error_heuristic_fraction [of U "text"]
  by (auto simp: compute_metrics_def Let_def split: sum.splits if_splits)

lemma not_hyphen_search:
  "re_search U [One (\<lambda>c. c \<noteq> 45)] w \<noteq> None \<longleftrightarrow> list_ex (\<lambda>c. c \<noteq> 45) w"
proof -
  have one: "m U pre suf i 0 Map.empty [One (\<lambda>c. c \<noteq> 45)] \<noteq> None
      \<longleftrightarrow> (\<exists>c rest. suf = c # rest \<and> c \<noteq> 45)" for pre suf i
    by (cases suf) auto
  show ?thesis
    unfolding re_search_iff one
  proof
    assume "\<exists>s1 s2. w = s1 @ s2 \<and> (\<exists>c rest. s2 = c # rest \<and> c \<noteq> 45)"
    then show "list_ex (\<lambda>c. c \<noteq> 45) w" by (auto simp: list_ex_iff)
  next
    assume "list_ex (\<lambda>c. c \<noteq> 45) w"
    then obtain c where "c \<in> set w" "c \<noteq> 45" by (auto simp: list_ex_iff)
    then obtain s1 rest where "w = s1 @ c # rest" by (auto dest: split_list)
    with \<open>c \<noteq> 45\<close> show "\<exists>s1 s2. w = s1 @ s2 \<and> (\<exists>c rest. s2 = c # rest \<and> c \<noteq> 45)" by blast
  qed
qed

lemma ocr_error_rate_fraction:
  "ocr_error_rate U text =
     Inr (of_nat (length (filter (list_ex (\<lambda>c. c \<noteq> 45)) (py_split text)))
            / of_nat (max (length (py_split text)) 1))"
  unfolding ocr_error_rate_def not_hyphen_search truediv_guard by simp

text \<open>
  C2. The claim describes \<open>_ocr_error_heuristic\<close>, which returns exactly the
  fraction of suspicious words (\<open>ocr_error_heuristic_fraction\<close> above). The
  \<open>ocr_error_rate\<close> of text_comparison.py does not: its pattern flags every word
  that holds a character other than a hyphen. On \<open>hello world\<close> it returns 1, where
  no word is suspicious and the archived function returns 0.
\<close>

theorem ocr_error_rate_flags_plain_words:
  "ocr_error_rate U (u ''hello world'') = Inr 1
   \<and> suspicious_fraction (u ''hello world'') = 0
   \<and> ocr_error_heuristic U (tokenise (u ''hello world'')) = Inr 0"
proof -
  have sp: "py_split (u ''hello world'') = [u ''hello'', u ''world'']"
    by (simp add: py_split_def u_def py_isspace_def)
  have a: "ocr_error_rate U (u ''hello world'') = Inr 1"
    unfolding ocr_error_rate_fraction sp by (simp add: u_def)
  have b: "suspicious_fraction (u ''hello world'') = 0"
    unfolding suspicious_fraction_def sp
    by (simp add: suspicious_word_def u_def ascii_digit_def)
  from a b ocr_error_heuristic_fraction [of U "u ''hello world''"] show ?thesis by simp
qed

subsection \<open>Characters of a substitution\<close>

lemma py_replace_chars: "set (py_replace old new s) \<subseteq> set s \<union> set new"
proof (induction old new s rule: py_replace.induct)
  case (1 old new)
  show ?case by simp
next
  case (2 old new c cs)
  show ?case
  proof (cases "old \<noteq> [] \<and> starts_with old (c # cs)")
    case True
    have "set (drop (length old) (c # cs)) \<subseteq> set (c # cs)" by (rule set_drop_subset)
    with True "2.IH"(1) show ?thesis by auto
  next
    case False
    with "2.IH"(2) show ?thesis by auto
  qed
qed

lemma py_replace_removes: "c \<notin> set new \<Longrightarrow> c \<notin> set (py_replace [c] new s)"
proof (induction s)
  case Nil
  show ?case by simp
next
  case (Cons x xs)
  then show ?case by (cases "x = c") (simp_all add: drop_Cons')
qed

lemma group_text_chars: "set (group_text s cs g) \<subseteq> set s"
proof (cases "cs g")
  case None
  then show ?thesis by (simp add: group_text_def)
next
  case (Some be)
  obtain b e where "be = (b, e)" by (cases be)
  with Some have "group_text s cs g = take (e - b) (drop b s)" by (simp add: group_text_def)
  moreover have "set (take (e - b) (drop b s)) \<subseteq> set s"
    using set_take_subset [of "e - b" "drop b s"] set_drop_subset [of b s] by blast
  ultimately show ?thesis by simp
qed

lemma expand_chars: "set (expand tmpl s cs) \<subseteq> set s \<union> template_chars tmpl"
proof (induction tmpl s cs rule: expand.induct)
  case (3 g ps s cs)
  then show ?case using group_text_chars [of s cs g] by auto
qed auto

lemma build_chars:
  "(\<And>mt. set (f mt) \<subseteq> set s \<union> A) \<Longrightarrow> set (build s f i ms) \<subseteq> set s \<union> A"
proof (induction ms arbitrary: i)
  case Nil
  show ?case using set_drop_subset [of i s] by auto
next
  case (Cons mt ms)
  obtain b e cs where mt: "mt = (b, e, cs)" by (cases mt)
  have "set (take (b - i) (drop i s)) \<subseteq> set s"
    using set_take_subset [of "b - i" "drop i s"] set_drop_subset [of i s] by blast
  with Cons.IH [OF Cons.prems, of e] Cons.prems [of "(b, e, cs)"] show ?case
    unfolding mt by auto
qed

lemma re_sub_chars: "set (re_sub U re tmpl s) \<subseteq> set s \<union> template_chars tmpl"
proof -
  have "set ((\<lambda>(b, e, cs). expand tmpl s cs) mt) \<subseteq> set s \<union> template_chars tmpl" for mt
    using expand_chars [of tmpl s] by (cases mt) auto
  then show ?thesis unfolding re_sub_def re_subf_def by (rule build_chars)
qed

subsection \<open>The character substitution stage\<close>

lemma keep_replace:
  "c \<notin> set s \<Longrightarrow> c \<notin> set new \<Longrightarrow> c \<notin> set (py_replace old new s)"
  using py_replace_chars [of old new s] by blast

lemma keep_sub:
  "c \<notin> set s \<Longrightarrow> c \<notin> template_chars tmpl \<Longrightarrow> c \<notin> set (re_sub U re tmpl s)"
  using re_sub_chars [of U re tmpl s] by blast

lemma fix_ocr_no_digit:
  assumes "c = 48 \<or> c = 49"
  shows "c \<notin> set (fix_ocr_character_errors U text)"
proof -
  define t3 where "t3 = py_replace [49] [108] (py_replace [48] [79] (py_replace [124] [73] text))"
  have "48 \<notin> set (py_replace [48] [79] (py_replace [124] [73] text))"
    by (rule py_replace_removes) simp
  then have "48 \<notin> set t3" unfolding t3_def by (rule keep_replace) simp
  moreover have "49 \<notin> set t3" unfolding t3_def by (rule py_replace_removes) simp
  ultimately have 3: "c \<notin> set t3" using assms by auto
  have cu: "c \<notin> set (u ''like'')" "c \<notin> set (u ''live'')" "c \<notin> set (u ''later'')"
    "c \<notin> set (u ''less'')" "c \<notin> set (u ''I'')" "c \<notin> set (u ''is'')" "c \<notin> set (u ''If'')"
    "c \<notin> set (u ''In'')" "c \<notin> set (u ''It'')"
    using assms by (auto simp: u_def)
  have c: "c \<noteq> 33" "c \<noteq> 63" "c \<noteq> 44" "c \<noteq> 46" "c \<noteq> 39" "c \<noteq> 34" "c \<noteq> 45"
    using assms by auto
  show ?thesis
    unfolding fix_ocr_character_errors_def Let_def ocr_char_replacements_def fold_simps
      comp_def prod.case t3_def [symmetric]
    by (intro keep_sub keep_replace 3) (simp_all add: cu c)
qed

lemmas re_eval = re_sub_def re_subf_def search_def lits_def ilits_def chr_def ichr_def u_def
  closing_def below_def word_at_def re_word_def re_digit_def ascii_letter_def ascii_upper_def
  ascii_lower_def ascii_digit_def group_text_def dot_def one_of_def

text \<open>For evaluation the chain of assignments is unfolded into nested applications
  first, so that each step is computed on the value of the step before.\<close>

lemmas fix_ocr_chain = fix_ocr_character_errors_def [unfolded Let_def]

lemma fix_ocr_2010: "fix_ocr_character_errors U (u ''2010'') = u ''2OlO''"
  by (simp add: fix_ocr_chain ocr_char_replacements_def re_eval)

text \<open>
  C10. For every text the result of \<open>fix_ocr_character_errors\<close> holds neither the
  character \<open>0\<close> (48) nor the character \<open>1\<close> (49): the table replaces both
  everywhere and nothing after it writes one. The numeral \<open>2010\<close> becomes \<open>2OlO\<close>.
\<close>

theorem ocr_substitution_leaves_no_zero_or_one:
  "48 \<notin> set (fix_ocr_character_errors U text) \<and> 49 \<notin> set (fix_ocr_character_errors U text)
   \<and> fix_ocr_character_errors U (u ''2010'') = u ''2OlO''"
  using fix_ocr_no_digit [of 48 U "text"] fix_ocr_no_digit [of 49 U "text"] fix_ocr_2010 [of U]
  by simp


subsection \<open>Lines\<close>

lemma split_sep_acc_line:
  "10 \<notin> set x \<Longrightarrow> split_sep_acc [10] cur x = [cur @ x]"
  by (induction x arbitrary: cur) auto

lemma split_sep_acc_break:
  "10 \<notin> set x \<Longrightarrow> split_sep_acc [10] cur (x @ 10 # rest) = (cur @ x) # split_sep_acc [10] [] rest"
  by (induction x arbitrary: cur) auto

lemma split_sep_acc_no_break:
  "10 \<notin> set cur \<Longrightarrow> l \<in> set (split_sep_acc [10] cur s) \<Longrightarrow> 10 \<notin> set l"
proof (induction s arbitrary: cur)
  case Nil
  then show ?case by simp
next
  case (Cons c s)
  show ?case
  proof (cases "c = 10")
    case True
    with Cons.prems have "l = cur \<or> l \<in> set (split_sep_acc [10] [] s)" by auto
    with Cons.prems(1) Cons.IH [of "[]"] show ?thesis by auto
  next
    case False
    with Cons.prems have "l \<in> set (split_sep_acc [10] (cur @ [c]) s)" by simp
    moreover have "10 \<notin> set (cur @ [c])" using False Cons.prems(1) by simp
    ultimately show ?thesis using Cons.IH [of "cur @ [c]"] by blast
  qed
qed

lemma split_lines_no_break: "l \<in> set (split_sep [10] s) \<Longrightarrow> 10 \<notin> set l"
  unfolding split_sep_def using split_sep_acc_no_break [of "[]" l s] by simp

lemma split_join_lines:
  "ls \<noteq> [] \<Longrightarrow> \<forall>l \<in> set ls. 10 \<notin> set l \<Longrightarrow> split_sep [10] (py_join [10] ls) = ls"
proof (induction ls)
  case Nil
  then show ?case by simp
next
  case (Cons x xs)
  show ?case
  proof (cases xs)
    case Nil
    with Cons.prems show ?thesis by (simp add: split_sep_def split_sep_acc_line)
  next
    case (Cons y ys)
    with Cons.IH Cons.prems have "split_sep_acc [10] [] (py_join [10] (y # ys)) = y # ys"
      by (simp add: split_sep_def)
    with Cons Cons.prems show ?thesis
      by (simp add: split_sep_def split_sep_acc_break)
  qed
qed

subsection \<open>Repeated headers and footers\<close>

lemma count_lines_spec:
  "(case count_lines U ls lc k of None \<Rightarrow> 0 | Some n \<Rightarrow> n) =
     (case lc k of None \<Rightarrow> 0 | Some n \<Rightarrow> n)
     + (if 10 < length k then count_list (map (normalized U) ls) k else 0)"
proof (induction ls arbitrary: lc)
  case Nil
  show ?case by simp
next
  case (Cons l ls)
  define c where "c = normalized U l"
  define v where "v = (case lc c of None \<Rightarrow> 0 | Some n \<Rightarrow> n)"
  show ?case
  proof (cases "10 < length c")
    case True
    have "count_lines U (l # ls) lc = count_lines U ls (lc(c \<mapsto> v + 1))"
      using True by (simp add: Let_def c_def v_def normalized_def)
    then have "(case count_lines U (l # ls) lc k of None \<Rightarrow> 0 | Some n \<Rightarrow> n)
        = (case (lc(c \<mapsto> v + 1)) k of None \<Rightarrow> 0 | Some n \<Rightarrow> n)
          + (if 10 < length k then count_list (map (normalized U) ls) k else 0)"
      by (simp only: Cons.IH)
    also have "\<dots> = (case lc k of None \<Rightarrow> 0 | Some n \<Rightarrow> n)
          + (if 10 < length k then count_list (map (normalized U) (l # ls)) k else 0)"
      using True by (cases "k = c") (simp_all add: c_def [symmetric] v_def)
    finally show ?thesis .
  next
    case False
    have "count_lines U (l # ls) lc = count_lines U ls lc"
      using False by (simp add: Let_def c_def normalized_def)
    then have "(case count_lines U (l # ls) lc k of None \<Rightarrow> 0 | Some n \<Rightarrow> n)
        = (case lc k of None \<Rightarrow> 0 | Some n \<Rightarrow> n)
          + (if 10 < length k then count_list (map (normalized U) ls) k else 0)"
      by (simp only: Cons.IH)
    also have "\<dots> = (case lc k of None \<Rightarrow> 0 | Some n \<Rightarrow> n)
          + (if 10 < length k then count_list (map (normalized U) (l # ls)) k else 0)"
      using False by (cases "k = c") (simp_all add: c_def [symmetric])
    finally show ?thesis .
  qed
qed

lemma filter_lines_spec:
  assumes "\<And>k. (2 < (case lc k of None \<Rightarrow> 0 | Some n \<Rightarrow> n) \<and> 10 < length k) = R k"
    and "\<forall>k \<in> seen. R k"
  shows "filter_lines U lc ls seen kept = kept @ filter (\<lambda>l. \<not> R (normalized U l)) ls"
  using assms(2)
proof (induction ls arbitrary: seen kept)
  case Nil
  show ?case by simp
next
  case (Cons l ls)
  let ?k = "normalized U l"
  show ?case
  proof (cases "R ?k")
    case True
    have "filter_lines U lc (l # ls) seen kept
        = filter_lines U lc ls (if ?k \<in> seen then seen else insert ?k seen) kept"
      using True assms(1) [of ?k] by (auto simp: Let_def normalized_def)
    also have "\<dots> = kept @ filter (\<lambda>l. \<not> R (normalized U l)) ls"
      using Cons.prems True by (intro Cons.IH) auto
    finally show ?thesis using True by simp
  next
    case False
    with Cons.prems have "?k \<notin> seen" by blast
    then have "filter_lines U lc (l # ls) seen kept = filter_lines U lc ls seen (kept @ [l])"
      using False assms(1) [of ?k] by (auto simp: Let_def normalized_def)
    also have "\<dots> = (kept @ [l]) @ filter (\<lambda>l. \<not> R (normalized U l)) ls"
      using Cons.prems by (intro Cons.IH)
    finally show ?thesis using False by simp
  qed
qed

lemma remove_header_footer_repetition_spec:
  "remove_header_footer_repetition U text =
     py_join [10] (filter (\<lambda>line. \<not> repeated U text line) (split_sep [10] text))"
proof -
  let ?ls = "split_sep [10] text"
  let ?lc = "count_lines U ?ls Map.empty"
  have r: "(2 < (case ?lc k of None \<Rightarrow> 0 | Some n \<Rightarrow> n) \<and> 10 < length k)
      = (10 < length k \<and> 2 < count_list (map (normalized U) ?ls) k)" for k
    unfolding count_lines_spec by auto
  have "filter_lines U ?lc ?ls {} []
      = [] @ filter (\<lambda>l. \<not> (10 < length (normalized U l)
                \<and> 2 < count_list (map (normalized U) ?ls) (normalized U l))) ?ls"
    by (rule filter_lines_spec [OF r]) simp
  then show ?thesis
    by (simp add: remove_header_footer_repetition_def Let_def repeated_def)
qed


lemma normalized_empty: "normalized U [] = []"
  by (simp add: normalized_def py_lower_def py_strip_def)

lemma lines_eval:
  "split_sep [10] header_example =
     [u ''HM Government'', u ''Introduction'', u ''  hm government '', u ''We will cut taxes.'',
      u ''HM Government'', u ''The end'', u ''HM GOVERNMENT'']"
  by (simp add: header_example_def split_sep_def u_def)

lemma normalized_eval:
  "map (normalized U) (split_sep [10] header_example) =
     [u ''hm government'', u ''introduction'', u ''hm government'', u ''we will cut taxes.'',
      u ''hm government'', u ''the end'', u ''hm government'']"
  unfolding lines_eval
  by (simp add: normalized_def py_lower_def py_strip_def u_def py_isspace_def ascii_upper_def)

text \<open>
  C7. In \<open>remove_header_footer_repetition\<close> a line is repeated when its trimmed, lower-cased
  form is longer than 10 characters and is the form of more than two lines of the document.
  For every text the result is the lines that are not repeated, joined by line breaks, in
  their order: a repeated line is dropped at every occurrence, the first included, every other
  line is kept, and no line of the result is a repeated one. A document in which
  \<open>HM Government\<close> stands four times (in varying case and indentation) between three other
  lines comes out as those three lines.
\<close>

theorem repeated_header_removed_everywhere:
  "remove_header_footer_repetition U text =
     py_join [10] (filter (\<lambda>line. \<not> repeated U text line) (split_sep [10] text))
   \<and> (\<forall>line \<in> set (split_sep [10] (remove_header_footer_repetition U text)).
        \<not> repeated U text line)
   \<and> remove_header_footer_repetition U header_example =
       u ''Introduction'' @ [10] @ u ''We will cut taxes.'' @ [10] @ u ''The end''"
proof (intro conjI ballI)
  let ?kept = "filter (\<lambda>line. \<not> repeated U text line) (split_sep [10] text)"
  show spec: "remove_header_footer_repetition U text = py_join [10] ?kept"
    by (rule remove_header_footer_repetition_spec)
  show "\<not> repeated U text line"
    if line: "line \<in> set (split_sep [10] (remove_header_footer_repetition U text))" for line
  proof (cases "?kept = []")
    case True
    with line have "line = []" by (simp add: spec split_sep_def)
    then show ?thesis by (simp add: repeated_def normalized_empty)
  next
    case False
    have "\<forall>l \<in> set ?kept. 10 \<notin> set l" by (auto dest: split_lines_no_break)
    with False have "split_sep [10] (py_join [10] ?kept) = ?kept" by (rule split_join_lines)
    with line show ?thesis by (simp add: spec)
  qed
  show "remove_header_footer_repetition U header_example =
       u ''Introduction'' @ [10] @ u ''We will cut taxes.'' @ [10] @ u ''The end''"
    unfolding remove_header_footer_repetition_spec repeated_def normalized_eval
    unfolding lines_eval
    by (simp add: normalized_def py_lower_def py_strip_def u_def py_isspace_def ascii_upper_def)
qed

theorem repeated_header_removed_everywhere_witness:
  "repeated ascii_db header_example (u ''HM Government'')
   \<and> u ''HM Government'' \<notin> set (split_sep [10] (remove_header_footer_repetition ascii_db header_example))"
proof -
  have r: "repeated ascii_db header_example (u ''HM Government'')"
    unfolding repeated_def normalized_eval
    by (simp add: normalized_def py_lower_def py_strip_def u_def py_isspace_def ascii_upper_def)
  with repeated_header_removed_everywhere [of ascii_db header_example] show ?thesis by blast
qed

end
